theory Spec2Isabelle
  imports Complex_Main "HOL-Library.Char_ord" "HOL-Library.List_Lexorder"
begin

section \<open>JavaScript string, array and number primitives used by the sources\<close>

text \<open>
  A JavaScript string is a sequence of UTF-16 code units.  Strings are modelled by
  \<^typ>\<open>string\<close>, a \<^typ>\<open>char\<close> being a code unit below 256; a string with a code unit
  from 256 on is outside the type.  The order on strings (\<open>HOL-Library.List_Lexorder\<close> over
  \<open>HOL-Library.Char_ord\<close>) is the lexicographic order on code units, which is the order
  \<open>Array.prototype.sort()\<close> uses when it is called without a comparator.
\<close>

text \<open>\<open>String.prototype.split\<close> with a one-character separator: never returns an empty array.\<close>

fun js_split :: "char \<Rightarrow> string \<Rightarrow> string list" where
  "js_split sep [] = [[]]"
| "js_split sep (c # cs) =
     (if c = sep then [] # js_split sep cs
      else (case js_split sep cs of [] \<Rightarrow> [[c]] | p # ps \<Rightarrow> (c # p) # ps))"

text \<open>Array indexing and destructuring: an index past the end reads \<open>undefined\<close> (\<open>None\<close>).\<close>

definition js_nth :: "'a list \<Rightarrow> nat \<Rightarrow> 'a option" where
  "js_nth xs i = (if i < length xs then Some (xs ! i) else None)"

text \<open>\<open>Array.prototype.indexOf\<close>: the first position of the element, or \<open>-1\<close>.\<close>

fun indexOf :: "'a list \<Rightarrow> 'a \<Rightarrow> int" where
  "indexOf [] x = - 1"
| "indexOf (y # ys) x =
     (if y = x then 0 else (let i = indexOf ys x in if i = - 1 then - 1 else i + 1))"

text \<open>Truthiness of a value that is a string or \<open>undefined\<close>/\<open>null\<close>.\<close>

definition truthy :: "string option \<Rightarrow> bool" where
  "truthy v = (case v of None \<Rightarrow> False | Some s \<Rightarrow> s \<noteq> [])"

text \<open>
  \<open>String.prototype.trim\<close> removes white space and line terminators from both ends.  Those
  below 256 are TAB, LF, VT, FF, CR, SP and the no-break space U+00A0.
\<close>

definition isWhiteSpace :: "char \<Rightarrow> bool" where
  "isWhiteSpace c =
     (c \<in> set [CHR 0x09, CHR 0x0A, CHR 0x0B, CHR 0x0C, CHR 0x0D, CHR '' '', CHR 0xA0])"

definition trimStart :: "string \<Rightarrow> string" where
  "trimStart s = dropWhile isWhiteSpace s"

definition trimEnd :: "string \<Rightarrow> string" where
  "trimEnd s = rev (dropWhile isWhiteSpace (rev s))"

definition trim :: "string \<Rightarrow> string" where
  "trim s = trimEnd (trimStart s)"

text \<open>
  \<open>String.prototype.toUpperCase\<close>, by the code units of the result, since the upper case
  of a character below 256 need not be below 256: \<open>a\<close>--\<open>z\<close> and the letters U+00E0--U+00FE
  (not the division sign U+00F7) move down by 32, the micro sign U+00B5 becomes U+039C, the
  sharp s U+00DF becomes \<open>SS\<close>, U+00FF becomes U+0178, and every other character is kept.
\<close>

definition upperCodeUnits :: "char \<Rightarrow> nat list" where
  "upperCodeUnits c =
     (let n = (of_char c :: nat)
      in if 0x61 \<le> n \<and> n \<le> 0x7A then [n - 0x20]
         else if n = 0xB5 then [0x39C]
         else if n = 0xDF then [0x53, 0x53]
         else if 0xE0 \<le> n \<and> n \<le> 0xFE \<and> n \<noteq> 0xF7 then [n - 0x20]
         else if n = 0xFF then [0x178]
         else [n])"

definition toUpperCase :: "string \<Rightarrow> nat list" where
  "toUpperCase s = concat (map upperCodeUnits s)"

definition codeUnits :: "string \<Rightarrow> nat list" where
  "codeUnits s = map of_char s"

subsection \<open>Numbers\<close>

text \<open>
  A Number value: \<open>NaN\<close>, an infinity, or a finite value, which is modelled by the value
  itself.  The rounding of a literal or of a result to double precision is not modelled;
  it leaves every integer of magnitude up to \<open>2^53\<close> as it is.  Negative zero is zero.
\<close>

datatype jsNumber = NaN | Finite rat | PosInfinity | NegInfinity

fun jsNegate :: "jsNumber \<Rightarrow> jsNumber" where
  "jsNegate NaN = NaN"
| "jsNegate (Finite a) = Finite (- a)"
| "jsNegate PosInfinity = NegInfinity"
| "jsNegate NegInfinity = PosInfinity"

text \<open>The operators \<open>*\<close>, \<open>+\<close>, \<open><\<close> and \<open><=\<close> on Number values.\<close>

fun jsMult :: "jsNumber \<Rightarrow> jsNumber \<Rightarrow> jsNumber" where
  "jsMult NaN _ = NaN"
| "jsMult _ NaN = NaN"
| "jsMult (Finite a) (Finite b) = Finite (a * b)"
| "jsMult (Finite a) PosInfinity =
     (if a = 0 then NaN else if 0 < a then PosInfinity else NegInfinity)"
| "jsMult (Finite a) NegInfinity =
     (if a = 0 then NaN else if 0 < a then NegInfinity else PosInfinity)"
| "jsMult PosInfinity (Finite b) =
     (if b = 0 then NaN else if 0 < b then PosInfinity else NegInfinity)"
| "jsMult NegInfinity (Finite b) =
     (if b = 0 then NaN else if 0 < b then NegInfinity else PosInfinity)"
| "jsMult PosInfinity PosInfinity = PosInfinity"
| "jsMult PosInfinity NegInfinity = NegInfinity"
| "jsMult NegInfinity PosInfinity = NegInfinity"
| "jsMult NegInfinity NegInfinity = PosInfinity"

fun jsAdd :: "jsNumber \<Rightarrow> jsNumber \<Rightarrow> jsNumber" where
  "jsAdd NaN _ = NaN"
| "jsAdd _ NaN = NaN"
| "jsAdd (Finite a) (Finite b) = Finite (a + b)"
| "jsAdd PosInfinity NegInfinity = NaN"
| "jsAdd NegInfinity PosInfinity = NaN"
| "jsAdd PosInfinity _ = PosInfinity"
| "jsAdd _ PosInfinity = PosInfinity"
| "jsAdd NegInfinity _ = NegInfinity"
| "jsAdd _ NegInfinity = NegInfinity"

fun jsLess :: "jsNumber \<Rightarrow> jsNumber \<Rightarrow> bool" where
  "jsLess (Finite a) (Finite b) = (a < b)"
| "jsLess (Finite a) PosInfinity = True"
| "jsLess NegInfinity (Finite b) = True"
| "jsLess NegInfinity PosInfinity = True"
| "jsLess _ _ = False"

definition jsLessEq :: "jsNumber \<Rightarrow> jsNumber \<Rightarrow> bool" where
  "jsLessEq a b = (jsLess a b \<or> (a = b \<and> a \<noteq> NaN))"

text \<open>\<open>isNaN\<close> of a Number value or of \<open>undefined\<close> (\<open>None\<close>), which converts to \<open>NaN\<close>.\<close>

definition isNaN :: "jsNumber option \<Rightarrow> bool" where
  "isNaN v = (v = None \<or> v = Some NaN)"

text \<open>
  \<open>Number(str)\<close>, the conversion \<open>StringToNumber\<close> of the language: white space and line
  terminators are dropped from both ends; the empty string converts to \<open>0\<close>; a binary,
  octal or hexadecimal integer literal (\<open>0b\<close>, \<open>0o\<close>, \<open>0x\<close>, no sign) and a decimal literal
  (optional sign, then \<open>Infinity\<close> or digits with an optional fraction and an optional
  exponent) convert to their values; every other string converts to \<open>NaN\<close>.
\<close>

definition isDecimalDigit :: "char \<Rightarrow> bool" where
  "isDecimalDigit c = (c \<in> set ''0123456789'')"

definition hexDigitValue :: "char \<Rightarrow> nat option" where
  "hexDigitValue c =
     map_of [(CHR ''0'', 0), (CHR ''1'', 1), (CHR ''2'', 2), (CHR ''3'', 3), (CHR ''4'', 4),
             (CHR ''5'', 5), (CHR ''6'', 6), (CHR ''7'', 7), (CHR ''8'', 8), (CHR ''9'', 9),
             (CHR ''a'', 10), (CHR ''b'', 11), (CHR ''c'', 12), (CHR ''d'', 13),
             (CHR ''e'', 14), (CHR ''f'', 15),
             (CHR ''A'', 10), (CHR ''B'', 11), (CHR ''C'', 12), (CHR ''D'', 13),
             (CHR ''E'', 14), (CHR ''F'', 15)] c"

text \<open>The value of a string of digits of the given radix; \<open>None\<close> at any other character.\<close>

fun radixValue :: "nat \<Rightarrow> nat \<Rightarrow> string \<Rightarrow> nat option" where
  "radixValue radix acc [] = Some acc"
| "radixValue radix acc (c # cs) =
     (case hexDigitValue c of
        None \<Rightarrow> None
      | Some d \<Rightarrow> if d < radix then radixValue radix (acc * radix + d) cs else None)"

definition nonDecimalIntegerLiteral :: "string \<Rightarrow> nat option" where
  "nonDecimalIntegerLiteral s =
     (case s of
        c0 # x # ds \<Rightarrow>
          if c0 = CHR ''0'' \<and> ds \<noteq> [] then
            (if x \<in> set ''bB'' then radixValue 2 0 ds
             else if x \<in> set ''oO'' then radixValue 8 0 ds
             else if x \<in> set ''xX'' then radixValue 16 0 ds
             else None)
          else None
      | _ \<Rightarrow> None)"

definition exponentDigits :: "int \<Rightarrow> string \<Rightarrow> int option" where
  "exponentDigits sign ds =
     (if ds = [] then None
      else (case radixValue 10 0 ds of None \<Rightarrow> None | Some v \<Rightarrow> Some (sign * int v)))"

text \<open>The exponent part that ends a decimal literal, \<open>0\<close> when there is none.\<close>

definition exponentPart :: "string \<Rightarrow> int option" where
  "exponentPart s =
     (case s of
        [] \<Rightarrow> Some 0
      | c # r \<Rightarrow>
          if c \<in> set ''eE'' then
            (case r of
               [] \<Rightarrow> None
             | signChar # ds \<Rightarrow>
                 if signChar = CHR ''+'' then exponentDigits 1 ds
                 else if signChar = CHR ''-'' then exponentDigits (- 1) ds
                 else exponentDigits 1 r)
          else None)"

definition scale10 :: "nat \<Rightarrow> int \<Rightarrow> rat" where
  "scale10 m e = (if 0 \<le> e then of_nat m * 10 ^ nat e else of_nat m / 10 ^ nat (- e))"

definition strUnsignedDecimalLiteral :: "string \<Rightarrow> jsNumber" where
  "strUnsignedDecimalLiteral s =
     (if s = ''Infinity'' then PosInfinity
      else
        (let integerPart = takeWhile isDecimalDigit s;
             afterInteger = dropWhile isDecimalDigit s;
             hasPoint = (case afterInteger of [] \<Rightarrow> False | c # _ \<Rightarrow> c = CHR ''.'');
             fraction = (if hasPoint then takeWhile isDecimalDigit (tl afterInteger) else []);
             afterFraction =
               (if hasPoint then dropWhile isDecimalDigit (tl afterInteger) else afterInteger)
         in if integerPart = [] \<and> fraction = [] then NaN
            else
              (case (radixValue 10 0 (integerPart @ fraction), exponentPart afterFraction) of
                 (Some m, Some e) \<Rightarrow> Finite (scale10 m (e - int (length fraction)))
               | _ \<Rightarrow> NaN)))"

definition strDecimalLiteral :: "string \<Rightarrow> jsNumber" where
  "strDecimalLiteral s =
     (case s of
        [] \<Rightarrow> NaN
      | c # r \<Rightarrow>
          if c = CHR ''+'' then strUnsignedDecimalLiteral r
          else if c = CHR ''-'' then jsNegate (strUnsignedDecimalLiteral r)
          else strUnsignedDecimalLiteral s)"

definition Number :: "string \<Rightarrow> jsNumber" where
  "Number str =
     (let trimmed = trim str
      in if trimmed = [] then Finite 0
         else
           (case nonDecimalIntegerLiteral trimmed of
              Some n \<Rightarrow> Finite (of_nat n)
            | None \<Rightarrow> strDecimalLiteral trimmed))"

section \<open>Timing evaluator (\<open>src/lib/timeUtils.js\<close>)\<close>

definition daysOfWeek :: "string list" where
  "daysOfWeek = [''Sun'', ''Mon'', ''Tue'', ''Wed'', ''Thu'', ''Fri'', ''Sat'']"

text \<open>
  The three readings of a \<open>Date\<close> that \<open>parseTimings\<close> takes: \<open>getDay()\<close> (0 is Sunday),
  \<open>getHours()\<close> and \<open>getMinutes()\<close>.
\<close>

record jsDate =
  getDay :: nat
  getHours :: nat
  getMinutes :: nat

definition currentTimeInMinutes :: "jsDate \<Rightarrow> nat" where
  "currentTimeInMinutes currentTime = getHours currentTime * 60 + getMinutes currentTime"

text \<open>
  One day segment of a rule (lines 44--69): a range \<open>Mon-Fri\<close>, which may wrap around the
  week, or a single day name.  \<open>currentDay\<close> is \<open>daysOfWeek[currentTime.getDay()]\<close>.
\<close>

definition indexOfDay :: "string option \<Rightarrow> int" where
  "indexOfDay d = (case d of None \<Rightarrow> - 1 | Some name \<Rightarrow> indexOf daysOfWeek name)"

definition daySegmentMatches :: "string option \<Rightarrow> string \<Rightarrow> bool" where
  "daySegmentMatches currentDay segment =
     (if CHR ''-'' \<in> set segment then
        (let ps = js_split CHR ''-'' segment;
             startIndex = indexOfDay (js_nth ps 0);
             endIndex = indexOfDay (js_nth ps 1);
             currentDayIndex = indexOfDay currentDay
         in if startIndex \<noteq> - 1 \<and> endIndex \<noteq> - 1 \<and> currentDayIndex \<noteq> - 1 then
              (if startIndex \<le> endIndex
               then currentDayIndex \<ge> startIndex \<and> currentDayIndex \<le> endIndex
               else currentDayIndex \<ge> startIndex \<or> currentDayIndex \<le> endIndex)
            else False)
      else currentDay = Some segment)"

text \<open>The loop over the day segments (lines 41--70), which stops at the first match.\<close>

fun dayMatch :: "string option \<Rightarrow> string list \<Rightarrow> bool" where
  "dayMatch currentDay [] = False"
| "dayMatch currentDay (segment # segments) =
     (if daySegmentMatches currentDay segment then True else dayMatch currentDay segments)"

text \<open>
  The numeric components of \<open>HH:MM\<close> (lines 86--87): \<open>split(':').map(Number)\<close> destructured
  into its first two elements, where a missing element is \<open>undefined\<close> (\<open>None\<close>).
\<close>

definition timeComponents :: "string \<Rightarrow> jsNumber option \<times> jsNumber option" where
  "timeComponents timeStr =
     (let ns = map Number (js_split CHR '':'' timeStr)
      in (js_nth ns 0, js_nth ns 1))"

text \<open>
  The parsing half of the body of the time-range loop (lines 80--92): the four numbers of a
  range, or \<open>None\<close> where the source skips the range with a warning.
\<close>

definition rangeComponents ::
  "string \<Rightarrow> (jsNumber \<times> jsNumber \<times> jsNumber \<times> jsNumber) option"
where
  "rangeComponents timeRangeStr =
     (let ps = js_split CHR ''-'' timeRangeStr;
          startTimeStr = js_nth ps 0;
          endTimeStr = js_nth ps 1
      in if \<not> truthy startTimeStr \<or> \<not> truthy endTimeStr then None
         else
           (case (startTimeStr, endTimeStr) of
              (Some st, Some en) \<Rightarrow>
                (case (timeComponents st, timeComponents en) of
                   ((startHour, startMinute), (endHour, endMinute)) \<Rightarrow>
                     if isNaN startHour \<or> isNaN startMinute \<or> isNaN endHour \<or> isNaN endMinute
                     then None
                     else
                       (case (startHour, startMinute, endHour, endMinute) of
                          (Some sh, Some sm, Some eh, Some em) \<Rightarrow> Some (sh, sm, eh, em)
                        | _ \<Rightarrow> None))
            | _ \<Rightarrow> None))"

text \<open>
  The deciding half (lines 94--137): \<open>True\<close> exactly where the source reaches
  \<open>return true\<close>.  The branch for an inverted range only logs.
\<close>

definition timeRangeActive :: "nat \<Rightarrow> string \<Rightarrow> bool" where
  "timeRangeActive now timeRangeStr =
     (case rangeComponents timeRangeStr of
        None \<Rightarrow> False
      | Some (startHour, startMinute, endHour, endMinute) \<Rightarrow>
          (let startTimeInMinutes = jsAdd (jsMult startHour (Finite 60)) startMinute;
               endTimeInMinutes =
                 (if endHour = Finite 0 \<and> endMinute = Finite 0
                     \<and> jsLess (Finite 0) startTimeInMinutes
                  then Finite (24 * 60)
                  else jsAdd (jsMult endHour (Finite 60)) endMinute)
           in if jsLessEq startTimeInMinutes endTimeInMinutes
              then jsLessEq startTimeInMinutes (Finite (of_nat now))
                   \<and> jsLess (Finite (of_nat now)) endTimeInMinutes
              else False))"

fun timeRangesLoop :: "nat \<Rightarrow> string list \<Rightarrow> bool" where
  "timeRangesLoop now [] = False"
| "timeRangesLoop now (timeRangeStr # rest) =
     (if timeRangeActive now timeRangeStr then True else timeRangesLoop now rest)"

text \<open>The body of the loop over the rules (lines 31--138).\<close>

definition ruleActive :: "jsDate \<Rightarrow> string \<Rightarrow> bool" where
  "ruleActive currentTime rule =
     (let parts = js_split CHR '';'' (trim rule)
      in if length parts \<noteq> 2 then False
         else
           (let timeRangesStr = parts ! 0;
                daysStr = parts ! 1
            in if \<not> dayMatch (js_nth daysOfWeek (getDay currentTime)) (js_split CHR '','' daysStr)
               then False
               else timeRangesLoop (currentTimeInMinutes currentTime)
                      (js_split CHR '','' timeRangesStr)))"

fun rulesLoop :: "jsDate \<Rightarrow> string list \<Rightarrow> bool" where
  "rulesLoop currentTime [] = False"
| "rulesLoop currentTime (rule # rules) =
     (if ruleActive currentTime rule then True else rulesLoop currentTime rules)"

text \<open>
  \<open>parseTimings(timingsString, currentTime)\<close>.  A missing argument (\<open>undefined\<close>, \<open>null\<close>)
  is \<open>None\<close>; the empty string is falsy as well.
\<close>

definition parseTimings :: "string option \<Rightarrow> jsDate option \<Rightarrow> bool" where
  "parseTimings timingsString currentTime =
     (case (timingsString, currentTime) of
        (Some ts, Some ct) \<Rightarrow>
          if ts = [] then False
          else if toUpperCase (trim ts) = codeUnits ''24/7'' then True
          else rulesLoop ct (js_split CHR ''|'' ts)
      | _ \<Rightarrow> False)"

text \<open>
  The notation \<open>HH:MM-HH:MM\<close> of a time range with two-digit fields, as the rule language
  writes it.
\<close>

definition digitChar :: "nat \<Rightarrow> char" where
  "digitChar d = ''0123456789'' ! d"

definition twoDigits :: "nat \<Rightarrow> string" where
  "twoDigits n = [digitChar (n div 10), digitChar (n mod 10)]"

definition timeRangeText :: "nat \<Rightarrow> nat \<Rightarrow> nat \<Rightarrow> nat \<Rightarrow> string" where
  "timeRangeText sh sm eh em =
     twoDigits sh @ '':'' @ twoDigits sm @ ''-'' @ twoDigits eh @ '':'' @ twoDigits em"

section \<open>The shared store\<close>

text \<open>
  The Redis keyspace as the services use it: agent and queue hashes, sets of identifiers,
  lists of waiting calls and plain strings, each addressed by the key string that the
  helper functions of \<open>queueService.js\<close> build.  The fields of a hash that hold JSON text
  (\<open>loggedInQueues\<close>, timing rules, waiting-call records) are kept decoded: the services
  are the only writers, and \<open>JSON.parse\<close> after \<open>JSON.stringify\<close> gives the value back.
  A set is a list without a fixed order, which \<open>sadd\<close> never extends by a member it has
  already.  Store operations are total here; a failing connection, which the services
  answer in their \<open>catch\<close> blocks, is not part of the state.
\<close>

record agentHash =
  name :: string
  endpoint :: string
  shiftTimings :: string
  status :: string
  loggedInQueues :: "string list"

record queueHash =
  queueName :: string
  strategy :: string
  timings :: string
  queueStatus :: string

record callRecord =
  ariChannelId :: string
  callerNumber :: string
  enqueueTime :: nat

record store =
  agentHashes :: "string \<rightharpoonup> agentHash"
  queueHashes :: "string \<rightharpoonup> queueHash"
  redisSets :: "string \<Rightarrow> string list"
  redisLists :: "string \<Rightarrow> callRecord list"
  redisStrings :: "string \<rightharpoonup> string"

definition emptyStore :: store where
  "emptyStore =
     \<lparr>agentHashes = Map.empty, queueHashes = Map.empty, redisSets = (\<lambda>_. []),
      redisLists = (\<lambda>_. []), redisStrings = Map.empty\<rparr>"

definition sadd :: "store \<Rightarrow> string \<Rightarrow> string \<Rightarrow> store" where
  "sadd s key member =
     (if member \<in> set (redisSets s key) then s
      else s\<lparr>redisSets := (redisSets s)(key := redisSets s key @ [member])\<rparr>)"

definition srem :: "store \<Rightarrow> string \<Rightarrow> string \<Rightarrow> store" where
  "srem s key member =
     s\<lparr>redisSets := (redisSets s)(key := filter (\<lambda>m. m \<noteq> member) (redisSets s key))\<rparr>"

definition smembers :: "store \<Rightarrow> string \<Rightarrow> string list" where
  "smembers s key = redisSets s key"

definition redisGet :: "store \<Rightarrow> string \<Rightarrow> string option" where
  "redisGet s key = redisStrings s key"

definition redisSet :: "store \<Rightarrow> string \<Rightarrow> string \<Rightarrow> store" where
  "redisSet s key v = s\<lparr>redisStrings := (redisStrings s)(key \<mapsto> v)\<rparr>"

definition rpush :: "store \<Rightarrow> string \<Rightarrow> callRecord \<Rightarrow> store" where
  "rpush s key r = s\<lparr>redisLists := (redisLists s)(key := redisLists s key @ [r])\<rparr>"

section \<open>Queue and agent repository (\<open>src/services/queueService.js\<close>)\<close>

subsection \<open>Keys\<close>

definition getQueueKey :: "string \<Rightarrow> string \<Rightarrow> string" where
  "getQueueKey callCenterId queueId = ''callcenter:'' @ callCenterId @ '':queue:'' @ queueId"

definition getAgentKey :: "string \<Rightarrow> string \<Rightarrow> string" where
  "getAgentKey callCenterId agentId = ''callcenter:'' @ callCenterId @ '':agent:'' @ agentId"

definition getQueueLoggedInAgentsKey :: "string \<Rightarrow> string \<Rightarrow> string" where
  "getQueueLoggedInAgentsKey callCenterId queueId =
     ''callcenter:'' @ callCenterId @ '':queue:'' @ queueId @ '':agents_loggedIn''"

definition getMasterQueuesKey :: "string \<Rightarrow> string" where
  "getMasterQueuesKey callCenterId = ''callcenter:'' @ callCenterId @ '':queues_master''"

definition getMasterAgentsKey :: "string \<Rightarrow> string" where
  "getMasterAgentsKey callCenterId = ''callcenter:'' @ callCenterId @ '':agents_master''"

definition getQueueCallsKey :: "string \<Rightarrow> string \<Rightarrow> string" where
  "getQueueCallsKey callCenterId queueId =
     ''callcenter:'' @ callCenterId @ '':queue:'' @ queueId @ '':calls''"

definition getQueueLastAgentRRKey :: "string \<Rightarrow> string \<Rightarrow> string" where
  "getQueueLastAgentRRKey callCenterId queueId =
     ''callcenter:'' @ callCenterId @ '':queue:'' @ queueId @ '':lastAgentRR''"

subsection \<open>Queues and agents\<close>

text \<open>
  Every operation answers \<open>{ success: false, error }\<close> (\<open>Inl\<close> of the message) or
  \<open>{ success: true, data }\<close> (\<open>Inr\<close> of the data), and returns the store it leaves.
\<close>

definition createQueue ::
  "store \<Rightarrow> string \<Rightarrow> string \<Rightarrow> string \<Rightarrow> string \<Rightarrow> string \<Rightarrow> (string + queueHash) \<times> store"
where
  "createQueue s callCenterId queueId nm strat tms =
     (if callCenterId = [] \<or> queueId = [] then
        (Inl ''callCenterId and queueId are required.'', s)
      else
        (let q = \<lparr>queueName = nm, strategy = strat, timings = tms, queueStatus = ''CLOSED''\<rparr>;
             s1 = s\<lparr>queueHashes := (queueHashes s)(getQueueKey callCenterId queueId \<mapsto> q)\<rparr>;
             s2 = sadd s1 (getMasterQueuesKey callCenterId) queueId
         in (Inr q, s2)))"

definition getQueueDetails :: "store \<Rightarrow> string \<Rightarrow> string \<Rightarrow> string + queueHash" where
  "getQueueDetails s callCenterId queueId =
     (if callCenterId = [] \<or> queueId = [] then Inl ''callCenterId and queueId are required.''
      else
        (case queueHashes s (getQueueKey callCenterId queueId) of
           None \<Rightarrow> Inl ''Queue not found.''
         | Some details \<Rightarrow> Inr details))"

definition addAgent ::
  "store \<Rightarrow> string \<Rightarrow> string \<Rightarrow> string \<Rightarrow> string \<Rightarrow> string \<Rightarrow> (string + agentHash) \<times> store"
where
  "addAgent s callCenterId agentId nm ep shift =
     (if callCenterId = [] \<or> agentId = [] \<or> nm = [] \<or> ep = [] then
        (Inl ''callCenterId, agentId, name, and endpoint are required.'', s)
      else
        (let agentData =
               \<lparr>name = nm, endpoint = ep, shiftTimings = shift, status = ''LOGGED_OUT'',
                loggedInQueues = []\<rparr>;
             s1 = s\<lparr>agentHashes := (agentHashes s)(getAgentKey callCenterId agentId \<mapsto> agentData)\<rparr>;
             s2 = sadd s1 (getMasterAgentsKey callCenterId) agentId
         in (Inr agentData, s2)))"

definition getAgentDetails :: "store \<Rightarrow> string \<Rightarrow> string \<Rightarrow> string + agentHash" where
  "getAgentDetails s callCenterId agentId =
     (if callCenterId = [] \<or> agentId = [] then Inl ''callCenterId and agentId are required.''
      else
        (case agentHashes s (getAgentKey callCenterId agentId) of
           None \<Rightarrow> Inl ''Agent not found.''
         | Some details \<Rightarrow> Inr details))"

subsection \<open>Timing and shift checks\<close>

text \<open>
  Modelled from the spec: \<open>isAgentOnShift\<close> is exported and called by \<open>queueService.js\<close>, but
  its body is not among the sources.  The specification gives it as ``load agent, evaluate
  \<open>shiftTimings\<close> via the timing evaluator'', answering \<open>data.isOnShift\<close>.
\<close>

definition isAgentOnShift :: "store \<Rightarrow> string \<Rightarrow> string \<Rightarrow> jsDate \<Rightarrow> string + bool" where
  "isAgentOnShift s callCenterId agentId now =
     (case getAgentDetails s callCenterId agentId of
        Inl e \<Rightarrow> Inl e
      | Inr details \<Rightarrow> Inr (parseTimings (Some (shiftTimings details)) (Some now)))"

text \<open>
  Modelled from the spec: \<open>isQueueActive\<close> is exported by \<open>queueService.js\<close> and called by the
  router, but its body is not among the sources.  The specification gives it as ``load queue,
  evaluate \<open>timings\<close> via the timing evaluator'', answering \<open>data.isActive\<close>.
\<close>

definition isQueueActive :: "store \<Rightarrow> string \<Rightarrow> string \<Rightarrow> jsDate \<Rightarrow> string + bool" where
  "isQueueActive s callCenterId queueId now =
     (case getQueueDetails s callCenterId queueId of
        Inl e \<Rightarrow> Inl e
      | Inr details \<Rightarrow> Inr (parseTimings (Some (timings details)) (Some now)))"

text \<open>The test \<open>result.success && result.data.isOnShift\<close> (and \<open>isActive\<close>).\<close>

definition succeededTrue :: "string + bool \<Rightarrow> bool" where
  "succeededTrue r = (case r of Inl _ \<Rightarrow> False | Inr b \<Rightarrow> b)"

subsection \<open>Login and logout\<close>

text \<open>The loop of \<open>agentLogin\<close> over \<open>queueIds\<close> (lines 185--188).\<close>

fun loginLoop :: "store \<Rightarrow> string \<Rightarrow> string \<Rightarrow> string list \<Rightarrow> store" where
  "loginLoop s callCenterId agentId [] = s"
| "loginLoop s callCenterId agentId (queueId # queueIds) =
     loginLoop (sadd s (getQueueLoggedInAgentsKey callCenterId queueId) agentId)
       callCenterId agentId queueIds"

text \<open>
  \<open>agentLogin(callCenterId, agentId, queueIds, forceLogin)\<close>; \<open>now\<close> is the \<open>new Date()\<close> of
  the shift check.  \<open>queueIds\<close> is an array by its type.
\<close>

definition agentLogin ::
  "store \<Rightarrow> string \<Rightarrow> string \<Rightarrow> string list \<Rightarrow> bool \<Rightarrow> jsDate \<Rightarrow> (string + unit) \<times> store"
where
  "agentLogin s callCenterId agentId queueIds forceLogin now =
     (if callCenterId = [] \<or> agentId = [] then
        (Inl ''callCenterId, agentId, and a valid queueIds array are required.'', s)
      else
        (case getAgentDetails s callCenterId agentId of
           Inl _ \<Rightarrow> (Inl ''Agent not found.'', s)
         | Inr agentDetails \<Rightarrow>
             if status agentDetails \<noteq> ''LOGGED_OUT'' then
               (Inl (''Agent is already logged in or in status: '' @ status agentDetails @ ''.''), s)
             else if \<not> forceLogin \<and> \<not> succeededTrue (isAgentOnShift s callCenterId agentId now)
             then (Inl ''Agent is not on shift.'', s)
             else
               (let s1 = s\<lparr>agentHashes := (agentHashes s)
                            (getAgentKey callCenterId agentId \<mapsto>
                               agentDetails\<lparr>status := ''AVAILABLE'', loggedInQueues := queueIds\<rparr>)\<rparr>
                in (Inr (), loginLoop s1 callCenterId agentId queueIds))))"

text \<open>The loop of \<open>agentLogout\<close> over the agent's queues (lines 222--225).\<close>

fun logoutLoop :: "store \<Rightarrow> string \<Rightarrow> string \<Rightarrow> string list \<Rightarrow> store" where
  "logoutLoop s callCenterId agentId [] = s"
| "logoutLoop s callCenterId agentId (queueId # queueIds) =
     logoutLoop (srem s (getQueueLoggedInAgentsKey callCenterId queueId) agentId)
       callCenterId agentId queueIds"

definition agentLogout :: "store \<Rightarrow> string \<Rightarrow> string \<Rightarrow> (string + unit) \<times> store" where
  "agentLogout s callCenterId agentId =
     (if callCenterId = [] \<or> agentId = [] then
        (Inl ''callCenterId and agentId are required.'', s)
      else
        (case agentHashes s (getAgentKey callCenterId agentId) of
           None \<Rightarrow> (Inl ''Agent not found.'', s)
         | Some agentDetails \<Rightarrow>
             if status agentDetails = ''LOGGED_OUT'' then (Inl ''Agent is already logged out.'', s)
             else
               (let s1 = logoutLoop s callCenterId agentId (loggedInQueues agentDetails)
                in (Inr (),
                    s1\<lparr>agentHashes := (agentHashes s1)
                         (getAgentKey callCenterId agentId \<mapsto>
                            agentDetails\<lparr>status := ''LOGGED_OUT'', loggedInQueues := []\<rparr>)\<rparr>))))"

subsection \<open>Waiting calls\<close>

text \<open>
  Modelled from the spec: \<open>addCallToQueue\<close> is exported by \<open>queueService.js\<close> and called by the
  router, but its body is not among the sources.  The specification gives it as ``append to
  the tail of the waiting sequence'' of the queue.
\<close>

definition addCallToQueue :: "store \<Rightarrow> string \<Rightarrow> string \<Rightarrow> callRecord \<Rightarrow> store" where
  "addCallToQueue s callCenterId queueId r = rpush s (getQueueCallsKey callCenterId queueId) r"

subsection \<open>Round-robin selection\<close>

text \<open>
  The loop of \<open>findAgentForCall_RoundRobin\<close> over the logged-in agents (lines 295--306),
  which pushes the agents that are \<open>AVAILABLE\<close> and on shift at \<open>currentTime\<close>.
\<close>

fun trulyAvailableAgents :: "store \<Rightarrow> string \<Rightarrow> jsDate \<Rightarrow> string list \<Rightarrow> string list" where
  "trulyAvailableAgents s callCenterId currentTime [] = []"
| "trulyAvailableAgents s callCenterId currentTime (agentId # agentIds) =
     (case getAgentDetails s callCenterId agentId of
        Inl _ \<Rightarrow> trulyAvailableAgents s callCenterId currentTime agentIds
      | Inr details \<Rightarrow>
          if status details = ''AVAILABLE''
             \<and> succeededTrue (isAgentOnShift s callCenterId agentId currentTime)
          then agentId # trulyAvailableAgents s callCenterId currentTime agentIds
          else trulyAvailableAgents s callCenterId currentTime agentIds)"

text \<open>
  The choice among the sorted agents (lines 315--323): the successor of the last agent when
  the pointer names one of them, the first one otherwise.
\<close>

definition selectNext :: "string list \<Rightarrow> string option \<Rightarrow> string option" where
  "selectNext agents lastAgentId =
     (case lastAgentId of
        Some l \<Rightarrow>
          if l \<noteq> [] \<and> l \<in> set agents then
            js_nth agents (nat ((indexOf agents l + 1) mod int (length agents)))
          else js_nth agents 0
      | None \<Rightarrow> js_nth agents 0)"

text \<open>
  \<open>findAgentForCall_RoundRobin(callCenterId, queueId)\<close>; \<open>currentTime\<close> is its \<open>new Date()\<close>.
  The data of a success is the selected agent, or \<open>None\<close> for \<open>data: null\<close>.
\<close>

definition findAgentForCall_RoundRobin ::
  "store \<Rightarrow> string \<Rightarrow> string \<Rightarrow> jsDate \<Rightarrow> (string + string option) \<times> store"
where
  "findAgentForCall_RoundRobin s callCenterId queueId currentTime =
     (if callCenterId = [] \<or> queueId = [] then
        (Inl ''callCenterId and queueId are required.'', s)
      else
        (let loggedInAgentsKey = getQueueLoggedInAgentsKey callCenterId queueId;
             lastAgentRRKey = getQueueLastAgentRRKey callCenterId queueId;
             loggedInAgents = smembers s loggedInAgentsKey
         in if loggedInAgents = [] then (Inr None, s)
            else
              (let available = trulyAvailableAgents s callCenterId currentTime loggedInAgents
               in if available = [] then (Inr None, s)
                  else
                    (let sorted = sort available;
                         lastAgentId = redisGet s lastAgentRRKey
                     in (case selectNext sorted lastAgentId of
                           None \<Rightarrow> (Inr None, s)
                         | Some selectedAgentId \<Rightarrow>
                             if selectedAgentId \<noteq> [] then
                               (Inr (Some selectedAgentId),
                                redisSet s lastAgentRRKey selectedAgentId)
                             else (Inr None, s))))))"

subsection \<open>Sequences of administrative operations\<close>

text \<open>
  The three operations that write agent records and logged-in sets, within one call
  center, and their effect on the store.  A failing operation leaves the store as it is.
\<close>

datatype adminOp =
    AddAgent string string string string
  | AgentLogin string "string list" bool jsDate
  | AgentLogout string

fun applyOp :: "string \<Rightarrow> store \<Rightarrow> adminOp \<Rightarrow> store" where
  "applyOp cc s (AddAgent agentId nm ep shift) = snd (addAgent s cc agentId nm ep shift)"
| "applyOp cc s (AgentLogin agentId queueIds forceLogin now) =
     snd (agentLogin s cc agentId queueIds forceLogin now)"
| "applyOp cc s (AgentLogout agentId) = snd (agentLogout s cc agentId)"

fun runOps :: "string \<Rightarrow> store \<Rightarrow> adminOp list \<Rightarrow> store" where
  "runOps cc s [] = s"
| "runOps cc s (x # xs) = runOps cc (applyOp cc s x) xs"

text \<open>
  The first two data invariants of the specification, for the agents and queues of the call
  center \<open>cc\<close>: a \<open>LOGGED_OUT\<close> agent has no queues and is in no logged-in set; an
  \<open>AVAILABLE\<close> agent is in the logged-in sets of exactly the queues of its
  \<open>loggedInQueues\<close>.
\<close>

definition loginInvariant :: "string \<Rightarrow> store \<Rightarrow> bool" where
  "loginInvariant cc s \<longleftrightarrow>
     (\<forall>a d. agentHashes s (getAgentKey cc a) = Some d \<longrightarrow>
        (status d = ''LOGGED_OUT'' \<longrightarrow>
           loggedInQueues d = [] \<and>
           (\<forall>q. a \<notin> set (redisSets s (getQueueLoggedInAgentsKey cc q)))) \<and>
        (status d = ''AVAILABLE'' \<longrightarrow>
           (\<forall>q. a \<in> set (redisSets s (getQueueLoggedInAgentsKey cc q)) \<longleftrightarrow>
                q \<in> set (loggedInQueues d))))"

text \<open>
  \<open>addAgent\<close> writes the record of \<open>agentId\<close> whether or not one exists.  An \<open>AddAgent\<close>
  is \<^emph>\<open>fresh\<close> when the agent has no record yet, or a record that is \<open>LOGGED_OUT\<close>.
\<close>

fun freshAdd :: "string \<Rightarrow> store \<Rightarrow> adminOp \<Rightarrow> bool" where
  "freshAdd cc s (AddAgent agentId nm ep shift) =
     (case agentHashes s (getAgentKey cc agentId) of
        None \<Rightarrow> True
      | Some d \<Rightarrow> status d = ''LOGGED_OUT'')"
| "freshAdd cc s _ = True"

fun freshAdds :: "string \<Rightarrow> store \<Rightarrow> adminOp list \<Rightarrow> bool" where
  "freshAdds cc s [] = True"
| "freshAdds cc s (x # xs) = (freshAdd cc s x \<and> freshAdds cc (applyOp cc s x) xs)"

text \<open>
  The invariant that the operations maintain: beyond \<open>loginInvariant\<close>, an identifier
  without a record is in no logged-in set, and no status other than \<open>LOGGED_OUT\<close> and
  \<open>AVAILABLE\<close> occurs.
\<close>

definition agentConsistent :: "string \<Rightarrow> store \<Rightarrow> string \<Rightarrow> bool" where
  "agentConsistent cc s a \<longleftrightarrow>
     (case agentHashes s (getAgentKey cc a) of
        None \<Rightarrow> \<forall>q. a \<notin> set (redisSets s (getQueueLoggedInAgentsKey cc q))
      | Some d \<Rightarrow>
          (status d = ''LOGGED_OUT'' \<and> loggedInQueues d = [] \<and>
             (\<forall>q. a \<notin> set (redisSets s (getQueueLoggedInAgentsKey cc q)))) \<or>
          (status d = ''AVAILABLE'' \<and>
             (\<forall>q. a \<in> set (redisSets s (getQueueLoggedInAgentsKey cc q)) \<longleftrightarrow>
                  q \<in> set (loggedInQueues d))))"

definition repositoryConsistent :: "string \<Rightarrow> store \<Rightarrow> bool" where
  "repositoryConsistent cc s \<longleftrightarrow> (\<forall>a. agentConsistent cc s a)"

subsection \<open>Eligibility and repeated selection\<close>

text \<open>
  An agent is eligible at \<open>currentTime\<close> when its record can be read, its status is
  \<open>AVAILABLE\<close> and the shift check succeeds with \<open>isOnShift\<close>.
\<close>

definition eligibleAgent :: "store \<Rightarrow> string \<Rightarrow> jsDate \<Rightarrow> string \<Rightarrow> bool" where
  "eligibleAgent s cc currentTime a \<longleftrightarrow>
     (case getAgentDetails s cc a of Inl _ \<Rightarrow> False | Inr d \<Rightarrow> status d = ''AVAILABLE'') \<and>
     isAgentOnShift s cc a currentTime = Inr True"

text \<open>
  The eligible list of a queue at an instant: the eligible members of its logged-in set,
  sorted.
\<close>

definition eligibleList :: "store \<Rightarrow> string \<Rightarrow> string \<Rightarrow> jsDate \<Rightarrow> string list" where
  "eligibleList s cc q currentTime =
     sort (filter (eligibleAgent s cc currentTime) (smembers s (getQueueLoggedInAgentsKey cc q)))"

text \<open>
  Successive calls of the selector for one queue, one per instant of the list, each on the
  store that the one before has left; the answers in order.
\<close>

fun roundRobinRun ::
  "store \<Rightarrow> string \<Rightarrow> string \<Rightarrow> jsDate list \<Rightarrow> (string + string option) list"
where
  "roundRobinRun s cc q [] = []"
| "roundRobinRun s cc q (t # ts) =
     (case findAgentForCall_RoundRobin s cc q t of
        (r, s') \<Rightarrow> r # roundRobinRun s' cc q ts)"

text \<open>
  The positions that a rotation over \<open>k\<close> places visits in \<open>n\<close> steps from position \<open>i\<close>,
  and the number of steps from position \<open>i\<close> forward to position \<open>m\<close>.
\<close>

fun rotation :: "nat \<Rightarrow> nat \<Rightarrow> nat \<Rightarrow> nat list" where
  "rotation k i 0 = []"
| "rotation k i (Suc n) = i # rotation k ((i + 1) mod k) n"

definition stepsTo :: "nat \<Rightarrow> nat \<Rightarrow> nat \<Rightarrow> nat" where
  "stepsTo k i m = (if i \<le> m then m - i else m + k - i)"

text \<open>The position that the selector takes for a pointer value (lines 318--323).\<close>

definition nextPosition :: "string list \<Rightarrow> string option \<Rightarrow> nat" where
  "nextPosition agents lastAgentId =
     (case lastAgentId of
        None \<Rightarrow> 0
      | Some l \<Rightarrow>
          if l \<in> set agents then nat ((indexOf agents l + 1) mod int (length agents)) else 0)"

subsection \<open>A concrete call center\<close>

text \<open>
  The setting of the specification's routing scenarios: queue \<open>Q1\<close> of call center \<open>CC\<close>,
  open \<open>24/7\<close> with the round-robin strategy, and the agents \<open>A\<close>, \<open>B\<close> and \<open>C\<close>, on shift
  \<open>24/7\<close>, who have logged into \<open>Q1\<close> in the order \<open>C\<close>, \<open>A\<close>, \<open>B\<close>.
\<close>

definition mondayMorning :: jsDate where
  "mondayMorning = \<lparr>getDay = 1, getHours = 10, getMinutes = 0\<rparr>"

definition scenarioStore :: store where
  "scenarioStore =
     runOps ''CC'' (snd (createQueue emptyStore ''CC'' ''Q1'' ''Support'' ''ROUND_ROBIN'' ''24/7''))
       [AddAgent ''A'' ''Alice'' ''PJSIP/a'' ''24/7'',
        AddAgent ''B'' ''Bob'' ''PJSIP/b'' ''24/7'',
        AddAgent ''C'' ''Carol'' ''PJSIP/c'' ''24/7'',
        AgentLogin ''C'' [''Q1''] False mondayMorning,
        AgentLogin ''A'' [''Q1''] False mondayMorning,
        AgentLogin ''B'' [''Q1''] False mondayMorning]"

section \<open>Call router (\<open>src/services/ariService.js\<close>)\<close>

text \<open>
  What the handlers read of a channel: \<open>channel.id\<close>, \<open>channel.state\<close>,
  \<open>channel.caller.number\<close> and the dialplan variables \<open>CALL_CENTER_ID\<close> and \<open>QUEUE_ID\<close>,
  where a variable that is not set reads as the empty string (both are falsy).
\<close>

record channel =
  channelId :: string
  channelState :: string
  callerIdNumber :: string
  CALL_CENTER_ID :: string
  QUEUE_ID :: string

text \<open>The argument of \<open>agentChannel.originate\<close> (lines 95--101).\<close>

record originateParams =
  originateEndpoint :: string
  callerId :: string
  app :: string
  appArgs :: string
  timeout :: nat

text \<open>The requests that the handlers send to the media server, in the order of sending.\<close>

datatype ariAction =
    Answer string
  | Hangup string
  | Play string string
  | StartMoh string string
  | Originate originateParams

text \<open>
  What the media server does with the requests of one run of the \<open>StasisStart\<close> handler:
  whether \<open>answer\<close> and \<open>play\<close> are rejected, and the state of the channel once \<open>play\<close> has
  returned.  A \<open>hangup\<close> or \<open>startMoh\<close> that is rejected is only logged.
\<close>

record mediaServer =
  answerFails :: bool
  playFails :: bool
  stateAfterPlay :: string

text \<open>
  The waiting-call record that each (re-)enqueue of the router builds
  (lines 82, 108, 164 and 173): the caller's channel and number, and \<open>Date.now()\<close>.
\<close>

definition waitingRecord :: "channel \<Rightarrow> nat \<Rightarrow> callRecord" where
  "waitingRecord ch dateNow =
     \<lparr>ariChannelId = channelId ch, callerNumber = callerIdNumber ch, enqueueTime = dateNow\<rparr>"

text \<open>
  Queueing the caller (lines 82--83 and 173--174): the record is appended and on-hold music
  is started.
\<close>

definition queueCaller ::
  "store \<Rightarrow> channel \<Rightarrow> string \<Rightarrow> string \<Rightarrow> nat \<Rightarrow> ariAction list \<times> store"
where
  "queueCaller s ch callCenterId queueId dateNow =
     ([StartMoh (channelId ch) ''default''],
      addCallToQueue s callCenterId queueId (waitingRecord ch dateNow))"

text \<open>
  The deflection of a call to a closed queue (lines 40--54): the prompt, then the hangup in
  the \<open>try\<close> block when \<open>play\<close> has returned, or in the \<open>catch\<close> block when it was
  rejected, each unless the channel is in state \<open>Hangup\<close> by then.
\<close>

definition closedQueue :: "mediaServer \<Rightarrow> channel \<Rightarrow> ariAction list" where
  "closedQueue ms ch =
     (if channelState ch \<noteq> ''Hangup'' then
        Play (channelId ch) ''sound:ss-noservice'' #
          (if playFails ms then
             (if stateAfterPlay ms \<noteq> ''Hangup'' then [Hangup (channelId ch)] else [])
           else
             (if stateAfterPlay ms \<noteq> ''Hangup'' then [Hangup (channelId ch)] else []))
      else [])"

text \<open>
  The round-robin branch of the \<open>StasisStart\<close> handler (lines 72--175), up to the call of
  \<open>originate\<close>.  The third component is the agent whose origination is pending, for the
  callback.  \<open>ari_appName\<close> is \<open>config.asterisk.ari_appName\<close>.
\<close>

definition routeRoundRobin ::
  "string \<Rightarrow> store \<Rightarrow> channel \<Rightarrow> string \<Rightarrow> string \<Rightarrow> jsDate \<Rightarrow> nat \<Rightarrow>
     ariAction list \<times> store \<times> string option"
where
  "routeRoundRobin ari_appName s ch callCenterId queueId now dateNow =
     (case findAgentForCall_RoundRobin s callCenterId queueId now of
        (Inr (Some agentId), s1) \<Rightarrow>
          if agentId \<noteq> [] then
            (case getAgentDetails s1 callCenterId agentId of
               Inr agentDetails \<Rightarrow>
                 if endpoint agentDetails \<noteq> [] then
                   ([Originate
                       \<lparr>originateEndpoint = endpoint agentDetails,
                        callerId = callerIdNumber ch,
                        app = ari_appName,
                        appArgs = ''dialed_agent'',
                        timeout = 15\<rparr>],
                    s1, Some agentId)
                 else
                   (case queueCaller s1 ch callCenterId queueId dateNow of
                      (acts, s2) \<Rightarrow> (acts, s2, None))
             | Inl _ \<Rightarrow>
                 (case queueCaller s1 ch callCenterId queueId dateNow of
                    (acts, s2) \<Rightarrow> (acts, s2, None)))
          else
            (case queueCaller s1 ch callCenterId queueId dateNow of
               (acts, s2) \<Rightarrow> (acts, s2, None))
      | (_, s1) \<Rightarrow>
          (case queueCaller s1 ch callCenterId queueId dateNow of
             (acts, s2) \<Rightarrow> (acts, s2, None)))"

text \<open>
  The \<open>StasisStart\<close> handler (lines 8--181).  \<open>now\<close> is its \<open>new Date()\<close> and \<open>dateNow\<close> its
  \<open>Date.now()\<close>.
\<close>

definition onStasisStart ::
  "mediaServer \<Rightarrow> string \<Rightarrow> store \<Rightarrow> channel \<Rightarrow> jsDate \<Rightarrow> nat \<Rightarrow>
     ariAction list \<times> store \<times> string option"
where
  "onStasisStart ms ari_appName s ch now dateNow =
     (if channelState ch = ''Ringing'' \<and> answerFails ms then
        ([Answer (channelId ch), Hangup (channelId ch)], s, None)
      else
        (let answered = (if channelState ch = ''Ringing'' then [Answer (channelId ch)] else []);
             callCenterId = CALL_CENTER_ID ch;
             queueId = QUEUE_ID ch
         in if callCenterId = [] \<or> queueId = [] then
              (answered @ [Hangup (channelId ch)], s, None)
            else if \<not> succeededTrue (isQueueActive s callCenterId queueId now) then
              (answered @ closedQueue ms ch, s, None)
            else
              (case getQueueDetails s callCenterId queueId of
                 Inl _ \<Rightarrow> (answered @ [Hangup (channelId ch)], s, None)
               | Inr queueDetails \<Rightarrow>
                   if strategy queueDetails = ''ROUND_ROBIN'' then
                     (case routeRoundRobin ari_appName s ch callCenterId queueId now dateNow of
                        (acts, s1, pending) \<Rightarrow> (answered @ acts, s1, pending))
                   else (answered @ [Hangup (channelId ch)], s, None))))"

text \<open>
  The callback of \<open>originate\<close> when it is called with an error (lines 102--112): the caller
  is added back to the queue, then on-hold music is started.
\<close>

definition onOriginateError ::
  "store \<Rightarrow> channel \<Rightarrow> string \<Rightarrow> string \<Rightarrow> nat \<Rightarrow> ariAction list \<times> store"
where
  "onOriginateError s ch callCenterId queueId dateNow =
     queueCaller s ch callCenterId queueId dateNow"

text \<open>
  The \<open>ChannelDestroyed\<close> handler of the agent's channel (lines 154--168); \<open>ch\<close> is the
  caller's channel with its state at that time.
\<close>

definition onAgentChannelDestroyed ::
  "store \<Rightarrow> channel \<Rightarrow> string \<Rightarrow> string \<Rightarrow> nat \<Rightarrow> ariAction list \<times> store"
where
  "onAgentChannelDestroyed s ch callCenterId queueId dateNow =
     (if channelState ch = ''Up'' then queueCaller s ch callCenterId queueId dateNow
      else ([], s))"

text \<open>A caller who rings on queue \<open>Q1\<close> of call center \<open>CC\<close>.\<close>

definition callerY :: channel where
  "callerY =
     \<lparr>channelId = ''chan-Y'', channelState = ''Ringing'', callerIdNumber = ''5551234'',
      CALL_CENTER_ID = ''CC'', QUEUE_ID = ''Q1''\<rparr>"

definition reliableServer :: mediaServer where
  "reliableServer = \<lparr>answerFails = False, playFails = False, stateAfterPlay = ''Ringing''\<rparr>"


subsection \<open>The call context and the re-queue discipline\<close>





section \<open>Properties of the timing evaluator\<close>


lemmas timing_eval_defs =
  parseTimings_def toUpperCase_def upperCodeUnits_def codeUnits_def trim_def trimStart_def
  trimEnd_def isWhiteSpace_def ruleActive_def js_nth_def daysOfWeek_def daySegmentMatches_def
  indexOfDay_def timeRangeActive_def rangeComponents_def truthy_def timeComponents_def isNaN_def
  Number_def nonDecimalIntegerLiteral_def strDecimalLiteral_def strUnsignedDecimalLiteral_def
  exponentPart_def exponentDigits_def scale10_def isDecimalDigit_def hexDigitValue_def
  jsLessEq_def currentTimeInMinutes_def Let_def

subsection \<open>Loops\<close>

lemma timeRangesLoop_iff:
  "timeRangesLoop now rs \<longleftrightarrow> (\<exists>r \<in> set rs. timeRangeActive now r)"
  by (induction rs) auto

lemma rulesLoop_iff:
  "rulesLoop t rules \<longleftrightarrow> (\<exists>rule \<in> set rules. ruleActive t rule)"
  by (induction rules) auto

lemma dayMatch_iff:
  "dayMatch d segs \<longleftrightarrow> (\<exists>seg \<in> set segs. daySegmentMatches d seg)"
  by (induction segs) auto

subsection \<open>Splitting and trimming\<close>

lemma js_split_notin: "sep \<notin> set s \<Longrightarrow> js_split sep s = [s]"
  by (induction s) auto

lemma js_split_append:
  "sep \<notin> set a \<Longrightarrow> js_split sep (a @ sep # b) = a # js_split sep b"
  by (induction a) auto

lemma trim_rule:
  assumes "r \<noteq> []" and "\<not> isWhiteSpace (hd r)" and "\<not> isWhiteSpace sep"
  shows "trim (r @ sep # d) = r @ sep # trimEnd d"
proof -
  from assms(1,2) have start: "trimStart (r @ sep # d) = r @ sep # d"
    by (cases r) (simp_all add: trimStart_def)
  have "dropWhile isWhiteSpace (rev d @ sep # rev r) =
          dropWhile isWhiteSpace (rev d) @ sep # rev r"
    using assms(3) by (simp add: dropWhile_append)
  then have "trimEnd (r @ sep # d) = r @ sep # trimEnd d"
    by (simp add: trimEnd_def)
  with start show ?thesis
    by (simp add: trim_def)
qed

lemma length_toUpperCase: "length s \<le> length (toUpperCase s)"
proof (induction s)
  case Nil
  then show ?case by (simp add: toUpperCase_def)
next
  case (Cons c s)
  have "1 \<le> length (upperCodeUnits c)"
    by (simp add: upperCodeUnits_def Let_def)
  with Cons show ?case
    by (simp add: toUpperCase_def)
qed

lemma not_247: "4 < length s \<Longrightarrow> toUpperCase s \<noteq> codeUnits ''24/7''"
proof
  assume "4 < length s" and "toUpperCase s = codeUnits ''24/7''"
  then have "length (toUpperCase s) = 4"
    by (simp add: codeUnits_def)
  with length_toUpperCase [of s] \<open>4 < length s\<close> show False
    by simp
qed

subsection \<open>The notation of a time range\<close>

lemma digit_cases:
  "d < (10::nat) \<Longrightarrow>
     d = 0 \<or> d = 1 \<or> d = 2 \<or> d = 3 \<or> d = 4 \<or> d = 5 \<or> d = 6 \<or> d = 7 \<or> d = 8 \<or> d = 9"
  by arith

lemma digitChar_values:
  "digitChar 0 = CHR ''0''" "digitChar 1 = CHR ''1''" "digitChar 2 = CHR ''2''"
  "digitChar 3 = CHR ''3''" "digitChar 4 = CHR ''4''" "digitChar 5 = CHR ''5''"
  "digitChar 6 = CHR ''6''" "digitChar 7 = CHR ''7''" "digitChar 8 = CHR ''8''"
  "digitChar 9 = CHR ''9''" "digitChar (Suc 0) = CHR ''1''"
  by (simp_all add: digitChar_def)

lemma digitChar_props:
  assumes "d < 10"
  shows "isDecimalDigit (digitChar d)" and "hexDigitValue (digitChar d) = Some d"
    and "\<not> isWhiteSpace (digitChar d)"
    and "digitChar d \<notin> set ''+-.:;,|bBoOxXeE''"
proof -
  from digit_cases [OF assms]
  show "isDecimalDigit (digitChar d)"
    by (elim disjE) (simp_all add: digitChar_values isDecimalDigit_def)
  from digit_cases [OF assms]
  show "hexDigitValue (digitChar d) = Some d"
    by (elim disjE) (simp_all add: digitChar_values hexDigitValue_def)
  from digit_cases [OF assms]
  show "\<not> isWhiteSpace (digitChar d)"
    by (elim disjE) (simp_all add: digitChar_values isWhiteSpace_def)
  from digit_cases [OF assms]
  show "digitChar d \<notin> set ''+-.:;,|bBoOxXeE''"
    by (elim disjE) (simp_all add: digitChar_values)
qed

lemma twoDigits_chars:
  assumes "n < 100"
  shows "set (twoDigits n) \<inter> set ''+-.:;,|bBoOxXeE'' = {}"
    and "\<forall>c \<in> set (twoDigits n). isDecimalDigit c"
    and "\<not> isWhiteSpace (hd (twoDigits n))" and "\<not> isWhiteSpace (last (twoDigits n))"
proof -
  from assms have d: "n div 10 < 10" "n mod 10 < 10" by simp_all
  show "set (twoDigits n) \<inter> set ''+-.:;,|bBoOxXeE'' = {}"
    using digitChar_props(4) [OF d(1)] digitChar_props(4) [OF d(2)]
    by (simp add: twoDigits_def)
  show "\<forall>c \<in> set (twoDigits n). isDecimalDigit c"
    using digitChar_props(1) [OF d(1)] digitChar_props(1) [OF d(2)]
    by (simp add: twoDigits_def)
  show "\<not> isWhiteSpace (hd (twoDigits n))"
    using digitChar_props(3) [OF d(1)] by (simp add: twoDigits_def)
  show "\<not> isWhiteSpace (last (twoDigits n))"
    using digitChar_props(3) [OF d(2)] by (simp add: twoDigits_def)
qed

lemma Number_twoDigits:
  assumes "n < 100"
  shows "Number (twoDigits n) = Finite (of_nat n)"
proof -
  let ?a = "digitChar (n div 10)" and ?b = "digitChar (n mod 10)"
  from assms have d: "n div 10 < 10" "n mod 10 < 10" by simp_all
  note a = digitChar_props [OF d(1)] and b = digitChar_props [OF d(2)]
  have trimmed: "trim [?a, ?b] = [?a, ?b]"
    using a(3) b(3) by (simp add: trim_def trimStart_def trimEnd_def)
  have nondec: "nonDecimalIntegerLiteral [?a, ?b] = None"
    by (simp add: nonDecimalIntegerLiteral_def)
  have val: "radixValue 10 0 [?a, ?b] = Some n"
    using a(2) b(2) d by simp
  have ne: "[?a, ?b] \<noteq> ''Infinity''"
    by simp
  have "strUnsignedDecimalLiteral [?a, ?b] = Finite (of_nat n)"
    unfolding strUnsignedDecimalLiteral_def using a(1) b(1) val ne
    by (simp add: Let_def exponentPart_def scale10_def)
  moreover have "?a \<noteq> CHR ''+''" "?a \<noteq> CHR ''-''"
    using a(4) by simp_all
  ultimately have "strDecimalLiteral [?a, ?b] = Finite (of_nat n)"
    by (simp add: strDecimalLiteral_def)
  with trimmed nondec show ?thesis
    by (simp add: Number_def twoDigits_def)
qed

lemma twoDigits_nonempty [simp]: "twoDigits n \<noteq> []"
  by (simp add: twoDigits_def)

lemma timeComponents_text:
  assumes "h < 100" and "m < 100"
  shows "timeComponents (twoDigits h @ CHR '':'' # twoDigits m) =
           (Some (Finite (of_nat h)), Some (Finite (of_nat m)))"
proof -
  have h: "CHR '':'' \<notin> set (twoDigits h)" and m: "CHR '':'' \<notin> set (twoDigits m)"
    using twoDigits_chars(1) [OF assms(1)] twoDigits_chars(1) [OF assms(2)] by auto
  have "js_split CHR '':'' (twoDigits h @ CHR '':'' # twoDigits m) = [twoDigits h, twoDigits m]"
    using js_split_append [OF h, of "twoDigits m"] js_split_notin [OF m] by simp
  then show ?thesis
    by (simp add: timeComponents_def js_nth_def Number_twoDigits assms)
qed

lemma rangeComponents_text:
  assumes "sh < 100" and "sm < 100" and "eh < 100" and "em < 100"
  shows "rangeComponents (timeRangeText sh sm eh em) =
           Some (Finite (of_nat sh), Finite (of_nat sm), Finite (of_nat eh), Finite (of_nat em))"
proof -
  let ?st = "twoDigits sh @ CHR '':'' # twoDigits sm"
  let ?en = "twoDigits eh @ CHR '':'' # twoDigits em"
  have st: "CHR ''-'' \<notin> set ?st" and en: "CHR ''-'' \<notin> set ?en"
    using twoDigits_chars(1) [OF assms(1)] twoDigits_chars(1) [OF assms(2)]
      twoDigits_chars(1) [OF assms(3)] twoDigits_chars(1) [OF assms(4)] by auto
  have "js_split CHR ''-'' (?st @ CHR ''-'' # ?en) = [?st, ?en]"
    using js_split_append [OF st, of ?en] js_split_notin [OF en] by simp
  then have split: "js_split CHR ''-'' (timeRangeText sh sm eh em) = [?st, ?en]"
    by (simp add: timeRangeText_def)
  show ?thesis
    unfolding rangeComponents_def split
    by (simp add: js_nth_def truthy_def isNaN_def
        timeComponents_text [OF assms(1,2)] timeComponents_text [OF assms(3,4)])
qed

lemma jsLessEq_Finite: "jsLessEq (Finite a) (Finite b) \<longleftrightarrow> a \<le> b"
  by (auto simp: jsLessEq_def)

lemma minutes_of_nat:
  "rat_of_nat a * 60 + rat_of_nat b = rat_of_nat (a * 60 + b)"
  by simp

lemma minutes_compare:
  "(rat_of_nat a * 60 + rat_of_nat b \<le> rat_of_nat c) = (a * 60 + b \<le> c)"
  "(rat_of_nat c < rat_of_nat a * 60 + rat_of_nat b) = (c < a * 60 + b)"
  "(rat_of_nat a * 60 + rat_of_nat b \<le> rat_of_nat c * 60 + rat_of_nat d) =
     (a * 60 + b \<le> c * 60 + d)"
  "(rat_of_nat a * 60 + rat_of_nat b \<le> 1440) = (a * 60 + b \<le> 1440)"
  "(rat_of_nat c < 1440) = (c < 1440)"
  "(0 < rat_of_nat a * 60 + rat_of_nat b) = (0 < a * 60 + b)"
proof -
  have day: "(1440::rat) = rat_of_nat 1440"
    by simp
  show "(rat_of_nat a * 60 + rat_of_nat b \<le> rat_of_nat c) = (a * 60 + b \<le> c)"
    unfolding minutes_of_nat by (rule of_nat_le_iff)
  show "(rat_of_nat c < rat_of_nat a * 60 + rat_of_nat b) = (c < a * 60 + b)"
    unfolding minutes_of_nat by (rule of_nat_less_iff)
  show "(rat_of_nat a * 60 + rat_of_nat b \<le> rat_of_nat c * 60 + rat_of_nat d) =
     (a * 60 + b \<le> c * 60 + d)"
    unfolding minutes_of_nat by (rule of_nat_le_iff)
  show "(rat_of_nat a * 60 + rat_of_nat b \<le> 1440) = (a * 60 + b \<le> 1440)"
    unfolding minutes_of_nat day by (rule of_nat_le_iff)
  show "(rat_of_nat c < 1440) = (c < 1440)"
    unfolding day by (rule of_nat_less_iff)
  show "(0 < rat_of_nat a * 60 + rat_of_nat b) = (0 < a * 60 + b)"
    unfolding minutes_of_nat by (rule of_nat_0_less_iff)
qed

lemma timeRangeActive_text:
  assumes "sh < 100" and "sm < 100" and "eh < 100" and "em < 100"
  shows "timeRangeActive now (timeRangeText sh sm eh em) \<longleftrightarrow>
           sh * 60 + sm \<le> now \<and>
           now < (if eh = 0 \<and> em = 0 \<and> 0 < sh * 60 + sm then 1440 else eh * 60 + em)"
proof (cases "eh = 0 \<and> em = 0 \<and> 0 < sh * 60 + sm")
  case True
  have "sh * 60 + sm \<le> 1440 \<or> \<not> (sh * 60 + sm \<le> now \<and> now < 1440)"
    by arith
  with True show ?thesis
    unfolding timeRangeActive_def rangeComponents_text [OF assms]
    by (auto simp add: Let_def jsLessEq_Finite minutes_compare simp del: of_nat_add of_nat_mult)
next
  case False
  then show ?thesis
    unfolding timeRangeActive_def rangeComponents_text [OF assms]
    by (auto simp add: Let_def jsLessEq_Finite minutes_compare simp del: of_nat_add of_nat_mult)
qed

subsection \<open>A rule with one time range\<close>

lemma timeRangeText_chars:
  assumes "sh < 100" and "sm < 100" and "eh < 100" and "em < 100"
  shows "set (timeRangeText sh sm eh em) \<inter> set '';,|'' = {}"
    and "timeRangeText sh sm eh em \<noteq> []"
    and "\<not> isWhiteSpace (hd (timeRangeText sh sm eh em))"
    and "10 < length (timeRangeText sh sm eh em)"
proof -
  show "set (timeRangeText sh sm eh em) \<inter> set '';,|'' = {}"
    using twoDigits_chars(1) [OF assms(1)] twoDigits_chars(1) [OF assms(2)]
      twoDigits_chars(1) [OF assms(3)] twoDigits_chars(1) [OF assms(4)]
    by (auto simp: timeRangeText_def)
  show "timeRangeText sh sm eh em \<noteq> []"
    by (simp add: timeRangeText_def)
  show "\<not> isWhiteSpace (hd (timeRangeText sh sm eh em))"
    using twoDigits_chars(3) [OF assms(1)] by (simp add: timeRangeText_def twoDigits_def)
  show "10 < length (timeRangeText sh sm eh em)"
    by (simp add: timeRangeText_def twoDigits_def)
qed

lemma trimEnd_subset: "set (trimEnd d) \<subseteq> set d"
  using set_dropWhileD [of _ isWhiteSpace "rev d"] by (auto simp: trimEnd_def)

lemma parseTimings_one_rule:
  assumes r: "r \<noteq> []" "\<not> isWhiteSpace (hd r)" "set r \<inter> set '';|'' = {}" "3 < length r"
    and days: "CHR ''|'' \<notin> set days" "CHR '';'' \<notin> set days"
  shows "parseTimings (Some (r @ '';'' @ days)) (Some t) \<longleftrightarrow>
           dayMatch (js_nth daysOfWeek (getDay t)) (js_split CHR '','' (trimEnd days)) \<and>
           timeRangesLoop (currentTimeInMinutes t) (js_split CHR '','' r)"
proof -
  let ?ts = "r @ '';'' @ days"
  have trimmed: "trim ?ts = r @ CHR '';'' # trimEnd days"
    using trim_rule [OF r(1,2), of "CHR '';''" days] by (simp add: isWhiteSpace_def)
  have "4 < length (trim ?ts)"
    unfolding trimmed using r(4) by simp
  then have not247: "toUpperCase (trim ?ts) \<noteq> codeUnits ''24/7''"
    by (rule not_247)
  have "CHR ''|'' \<notin> set ?ts"
    using r(3) days(1) by auto
  then have rules: "js_split CHR ''|'' ?ts = [?ts]"
    by (rule js_split_notin)
  have r_semi: "CHR '';'' \<notin> set r"
    using r(3) by auto
  have "CHR '';'' \<notin> set (trimEnd days)"
    using days(2) trimEnd_subset [of days] by auto
  then have parts: "js_split CHR '';'' (trim ?ts) = [r, trimEnd days]"
    unfolding trimmed using js_split_append [OF r_semi, of "trimEnd days"]
    by (simp add: js_split_notin)
  have "ruleActive t ?ts \<longleftrightarrow>
           dayMatch (js_nth daysOfWeek (getDay t)) (js_split CHR '','' (trimEnd days)) \<and>
           timeRangesLoop (currentTimeInMinutes t) (js_split CHR '','' r)"
    unfolding ruleActive_def parts by (auto simp: Let_def)
  with not247 rules show ?thesis
    by (simp add: parseTimings_def)
qed

text \<open>
  Claim C7.  A rule with one well-formed time range \<open>HH:MM-HH:MM\<close> followed by a day-spec: on a
  day matched by the day-spec, \<open>parseTimings\<close> admits the instant iff start minute \<open>\<le>\<close> minute
  of day \<open><\<close> end minute (start inclusive, end exclusive), the start and end minutes being the
  ones written in the range text, and the end \<open>00:00\<close> after a nonzero start being minute 1440;
  on a day the day-spec does not match, it admits nothing.
\<close>

theorem parseTimings_range_admits_iff:
  assumes "sh < 100" and "sm < 100" and "eh < 100" and "em < 100"
    and "CHR ''|'' \<notin> set days" and "CHR '';'' \<notin> set days"
  shows "parseTimings (Some (timeRangeText sh sm eh em @ '';'' @ days)) (Some t) \<longleftrightarrow>
           dayMatch (js_nth daysOfWeek (getDay t)) (js_split CHR '','' (trimEnd days)) \<and>
           sh * 60 + sm \<le> currentTimeInMinutes t \<and>
           currentTimeInMinutes t <
             (if eh = 0 \<and> em = 0 \<and> 0 < sh * 60 + sm then 1440 else eh * 60 + em)"
proof -
  let ?r = "timeRangeText sh sm eh em"
  note chars = timeRangeText_chars [OF assms(1-4)]
  have r: "?r \<noteq> []" "\<not> isWhiteSpace (hd ?r)" "set ?r \<inter> set '';|'' = {}" "3 < length ?r"
    using chars by auto
  have "CHR '','' \<notin> set ?r"
    using chars(1) by auto
  then have ranges: "js_split CHR '','' ?r = [?r]"
    by (rule js_split_notin)
  show ?thesis
    unfolding parseTimings_one_rule [OF r assms(5,6)] ranges
    by (simp add: timeRangeActive_text [OF assms(1-4)])
qed

theorem parseTimings_range_admits_iff_witness:
  "timeRangeText 9 0 17 30 @ '';'' @ ''Mon-Fri'' = ''09:00-17:30;Mon-Fri'' \<and>
   dayMatch (js_nth daysOfWeek 3) (js_split CHR '','' (trimEnd ''Mon-Fri'')) \<and>
   parseTimings (Some ''09:00-17:30;Mon-Fri'')
     (Some \<lparr>getDay = 3, getHours = 9, getMinutes = 0\<rparr>) \<and>
   parseTimings (Some ''09:00-17:30;Mon-Fri'')
     (Some \<lparr>getDay = 3, getHours = 17, getMinutes = 29\<rparr>) \<and>
   \<not> parseTimings (Some ''09:00-17:30;Mon-Fri'')
       (Some \<lparr>getDay = 3, getHours = 17, getMinutes = 30\<rparr>) \<and>
   \<not> parseTimings (Some ''09:00-17:30;Mon-Fri'')
       (Some \<lparr>getDay = 3, getHours = 8, getMinutes = 59\<rparr>)"
proof -
  have shape: "timeRangeText 9 0 17 30 @ '';'' @ ''Mon-Fri'' = ''09:00-17:30;Mon-Fri''"
    by (simp add: timeRangeText_def twoDigits_def digitChar_def)
  have days: "dayMatch (js_nth daysOfWeek 3) (js_split CHR '','' (trimEnd ''Mon-Fri''))"
    by (simp add: timing_eval_defs)
  have bounds: "(9::nat) < 100" "(0::nat) < 100" "(17::nat) < 100" "(30::nat) < 100"
    by simp_all
  have chars: "CHR ''|'' \<notin> set ''Mon-Fri''" "CHR '';'' \<notin> set ''Mon-Fri''"
    by simp_all
  note admits = parseTimings_range_admits_iff [OF bounds chars, unfolded shape]
  have "parseTimings (Some ''09:00-17:30;Mon-Fri'')
          (Some \<lparr>getDay = 3, getHours = 9, getMinutes = 0\<rparr>)"
    unfolding admits using days by (simp add: currentTimeInMinutes_def)
  moreover have "parseTimings (Some ''09:00-17:30;Mon-Fri'')
          (Some \<lparr>getDay = 3, getHours = 17, getMinutes = 29\<rparr>)"
    unfolding admits using days by (simp add: currentTimeInMinutes_def)
  moreover have "\<not> parseTimings (Some ''09:00-17:30;Mon-Fri'')
          (Some \<lparr>getDay = 3, getHours = 17, getMinutes = 30\<rparr>)"
    unfolding admits by (simp add: currentTimeInMinutes_def)
  moreover have "\<not> parseTimings (Some ''09:00-17:30;Mon-Fri'')
          (Some \<lparr>getDay = 3, getHours = 8, getMinutes = 59\<rparr>)"
    unfolding admits by (simp add: currentTimeInMinutes_def)
  ultimately show ?thesis
    using shape days by simp
qed

lemma length_two_iff: "length xs = 2 \<longleftrightarrow> (\<exists>a b. xs = [a, b])"
  by (cases xs; cases "tl xs"; auto)

lemma ruleActive_iff:
  "ruleActive t rule \<longleftrightarrow>
     (\<exists>rangesStr daysStr.
        js_split CHR '';'' (trim rule) = [rangesStr, daysStr] \<and>
        dayMatch (js_nth daysOfWeek (getDay t)) (js_split CHR '','' daysStr) \<and>
        (\<exists>r \<in> set (js_split CHR '','' rangesStr). timeRangeActive (currentTimeInMinutes t) r))"
  by (auto simp: ruleActive_def Let_def timeRangesLoop_iff length_two_iff)

text \<open>
  Claim C6.  A time range written \<open>HH:MM-HH:MM\<close> whose start minute is strictly greater than
  its end minute (the end not being \<open>00:00\<close> after a nonzero start) is inactive, whatever the
  day-spec and the instant.  A rule made of that range alone makes \<open>parseTimings\<close> answer
  \<open>False\<close>; putting the range in front of the other ranges of a rule leaves the answer of
  \<open>parseTimings\<close> what it is without it; and whenever \<open>parseTimings\<close> answers \<open>True\<close> for a
  string other than \<open>24/7\<close>, some rule with a matching day-spec has an active range that is
  not that range.
\<close>

theorem parseTimings_inverted_range_inactive:
  assumes "sh < 100" and "sm < 100" and "eh < 100" and "em < 100"
    and "\<not> (eh = 0 \<and> em = 0 \<and> 0 < sh * 60 + sm)" and "eh * 60 + em < sh * 60 + sm"
  shows "(CHR ''|'' \<notin> set days \<and> CHR '';'' \<notin> set days \<longrightarrow>
            \<not> parseTimings (Some (timeRangeText sh sm eh em @ '';'' @ days)) (Some t)) \<and>
         (CHR ''|'' \<notin> set days \<and> CHR '';'' \<notin> set days \<and>
          CHR ''|'' \<notin> set rest \<and> CHR '';'' \<notin> set rest \<and>
          rest \<noteq> [] \<and> \<not> isWhiteSpace (hd rest) \<and> 3 < length rest \<longrightarrow>
            (parseTimings (Some (timeRangeText sh sm eh em @ '','' @ rest @ '';'' @ days)) (Some t)
               \<longleftrightarrow> parseTimings (Some (rest @ '';'' @ days)) (Some t))) \<and>
         (parseTimings (Some ts) (Some t) \<and> toUpperCase (trim ts) \<noteq> codeUnits ''24/7'' \<longrightarrow>
            (\<exists>rule \<in> set (js_split CHR ''|'' ts). \<exists>rangesStr daysStr.
               js_split CHR '';'' (trim rule) = [rangesStr, daysStr] \<and>
               dayMatch (js_nth daysOfWeek (getDay t)) (js_split CHR '','' daysStr) \<and>
               (\<exists>r \<in> set (js_split CHR '','' rangesStr).
                  r \<noteq> timeRangeText sh sm eh em \<and>
                  timeRangeActive (currentTimeInMinutes t) r)))"
proof (intro conjI impI)
  let ?r = "timeRangeText sh sm eh em"
  note chars = timeRangeText_chars [OF assms(1-4)]
  have inactive: "\<not> timeRangeActive now ?r" for now
    unfolding timeRangeActive_text [OF assms(1-4)] using assms(5,6) by auto
  have r: "?r \<noteq> []" "\<not> isWhiteSpace (hd ?r)" "set ?r \<inter> set '';|'' = {}" "3 < length ?r"
    using chars by auto
  have comma: "CHR '','' \<notin> set ?r"
    using chars(1) by auto
  {
    assume "CHR ''|'' \<notin> set days \<and> CHR '';'' \<notin> set days"
    then have days: "CHR ''|'' \<notin> set days" "CHR '';'' \<notin> set days"
      by simp_all
    show "\<not> parseTimings (Some (?r @ '';'' @ days)) (Some t)"
      unfolding parseTimings_one_rule [OF r days] js_split_notin [OF comma]
      using inactive by simp
  next
    assume h: "CHR ''|'' \<notin> set days \<and> CHR '';'' \<notin> set days \<and>
          CHR ''|'' \<notin> set rest \<and> CHR '';'' \<notin> set rest \<and>
          rest \<noteq> [] \<and> \<not> isWhiteSpace (hd rest) \<and> 3 < length rest"
    then have days: "CHR ''|'' \<notin> set days" "CHR '';'' \<notin> set days"
      by simp_all
    let ?both = "?r @ '','' @ rest"
    have both: "?both \<noteq> []" "\<not> isWhiteSpace (hd ?both)" "set ?both \<inter> set '';|'' = {}"
      "3 < length ?both"
      using r h by auto
    have rest: "rest \<noteq> []" "\<not> isWhiteSpace (hd rest)" "set rest \<inter> set '';|'' = {}"
      "3 < length rest"
      using h by auto
    have split: "js_split CHR '','' ?both = ?r # js_split CHR '','' rest"
      using js_split_append [OF comma, of rest] by simp
    have "parseTimings (Some (?both @ '';'' @ days)) (Some t)
            \<longleftrightarrow> parseTimings (Some (rest @ '';'' @ days)) (Some t)"
      unfolding parseTimings_one_rule [OF both days] parseTimings_one_rule [OF rest days] split
      using inactive by simp
    then show "parseTimings (Some (?r @ '','' @ rest @ '';'' @ days)) (Some t)
            \<longleftrightarrow> parseTimings (Some (rest @ '';'' @ days)) (Some t)"
      by simp
  next
    assume h: "parseTimings (Some ts) (Some t) \<and> toUpperCase (trim ts) \<noteq> codeUnits ''24/7''"
    then have "\<exists>rule \<in> set (js_split CHR ''|'' ts). ruleActive t rule"
      by (auto simp: parseTimings_def rulesLoop_iff split: if_splits)
    then obtain rule rangesStr daysStr r'
      where "rule \<in> set (js_split CHR ''|'' ts)"
        and "js_split CHR '';'' (trim rule) = [rangesStr, daysStr]"
        and "dayMatch (js_nth daysOfWeek (getDay t)) (js_split CHR '','' daysStr)"
        and "r' \<in> set (js_split CHR '','' rangesStr)"
        and active: "timeRangeActive (currentTimeInMinutes t) r'"
      unfolding ruleActive_iff by blast
    moreover from active inactive have "r' \<noteq> ?r"
      by auto
    ultimately show "\<exists>rule \<in> set (js_split CHR ''|'' ts). \<exists>rangesStr daysStr.
               js_split CHR '';'' (trim rule) = [rangesStr, daysStr] \<and>
               dayMatch (js_nth daysOfWeek (getDay t)) (js_split CHR '','' daysStr) \<and>
               (\<exists>r \<in> set (js_split CHR '','' rangesStr).
                  r \<noteq> ?r \<and> timeRangeActive (currentTimeInMinutes t) r)"
      by blast
  }
qed

theorem parseTimings_inverted_range_inactive_witness:
  "timeRangeText 22 0 2 0 @ '';'' @ ''Mon'' = ''22:00-02:00;Mon'' \<and>
   timeRangeText 22 0 2 0 @ '','' @ ''09:00-12:00'' @ '';'' @ ''Mon'' =
     ''22:00-02:00,09:00-12:00;Mon'' \<and>
   dayMatch (js_nth daysOfWeek 1) (js_split CHR '','' (trimEnd ''Mon'')) \<and>
   \<not> parseTimings (Some ''22:00-02:00;Mon'')
       (Some \<lparr>getDay = 1, getHours = 23, getMinutes = 15\<rparr>) \<and>
   parseTimings (Some ''22:00-02:00,09:00-12:00;Mon'')
     (Some \<lparr>getDay = 1, getHours = 23, getMinutes = 15\<rparr>) =
   parseTimings (Some ''09:00-12:00;Mon'')
     (Some \<lparr>getDay = 1, getHours = 23, getMinutes = 15\<rparr>) \<and>
   parseTimings (Some ''22:00-02:00,09:00-12:00;Mon'')
     (Some \<lparr>getDay = 1, getHours = 10, getMinutes = 30\<rparr>) \<and>
   (\<exists>rule \<in> set (js_split CHR ''|'' ''22:00-02:00,09:00-12:00;Mon''). \<exists>rangesStr daysStr.
      js_split CHR '';'' (trim rule) = [rangesStr, daysStr] \<and>
      dayMatch (js_nth daysOfWeek 1) (js_split CHR '','' daysStr) \<and>
      (\<exists>r \<in> set (js_split CHR '','' rangesStr).
         r \<noteq> ''22:00-02:00'' \<and> timeRangeActive 630 r))"
proof -
  let ?t = "\<lparr>getDay = 1, getHours = 23, getMinutes = 15\<rparr>"
  let ?u = "\<lparr>getDay = 1, getHours = 10, getMinutes = 30\<rparr>"
  have shape: "timeRangeText 22 0 2 0 @ '';'' @ ''Mon'' = ''22:00-02:00;Mon''"
    "timeRangeText 22 0 2 0 @ '','' @ ''09:00-12:00'' @ '';'' @ ''Mon'' =
       ''22:00-02:00,09:00-12:00;Mon''"
    "''09:00-12:00'' @ '';'' @ ''Mon'' = ''09:00-12:00;Mon''"
    by (simp_all add: timeRangeText_def twoDigits_def digitChar_def)
  have joined: "timeRangeText 22 0 2 0 @ '','' @ ''09:00-12:00;Mon'' =
       ''22:00-02:00,09:00-12:00;Mon''"
    by (simp add: timeRangeText_def twoDigits_def digitChar_def)
  have range: "timeRangeText 22 0 2 0 = ''22:00-02:00''"
    by (simp add: timeRangeText_def twoDigits_def digitChar_def)
  have days: "dayMatch (js_nth daysOfWeek 1) (js_split CHR '','' (trimEnd ''Mon''))"
    by (simp add: timing_eval_defs)
  have bounds: "(22::nat) < 100" "(0::nat) < 100" "(2::nat) < 100" "(0::nat) < 100"
    by simp_all
  have inverted: "\<not> ((2::nat) = 0 \<and> (0::nat) = 0 \<and> 0 < (22::nat) * 60 + 0)"
    "(2::nat) * 60 + 0 < 22 * 60 + 0"
    by simp_all
  have alone: "CHR ''|'' \<notin> set ''Mon'' \<and> CHR '';'' \<notin> set ''Mon''"
    by simp
  have both: "CHR ''|'' \<notin> set ''Mon'' \<and> CHR '';'' \<notin> set ''Mon'' \<and>
     CHR ''|'' \<notin> set ''09:00-12:00'' \<and> CHR '';'' \<notin> set ''09:00-12:00'' \<and>
     ''09:00-12:00'' \<noteq> [] \<and> \<not> isWhiteSpace (hd ''09:00-12:00'') \<and>
     3 < length ''09:00-12:00''"
    by (simp add: isWhiteSpace_def)
  have active: "parseTimings (Some ''22:00-02:00,09:00-12:00;Mon'') (Some ?u)"
    by (simp add: timing_eval_defs)
  have other: "toUpperCase (trim ''22:00-02:00,09:00-12:00;Mon'') \<noteq> codeUnits ''24/7''"
    by (simp add: timing_eval_defs)
  have now: "currentTimeInMinutes ?u = 630" "getDay ?u = 1"
    by (simp_all add: currentTimeInMinutes_def)
  note inactive = parseTimings_inverted_range_inactive [OF bounds inverted]
  note c1 = inactive [where days = "''Mon''" and t = "?t", THEN conjunct1, rule_format, OF alone,
      unfolded shape]
  note c2 = inactive [where days = "''Mon''" and rest = "''09:00-12:00''" and t = "?t",
      THEN conjunct2, THEN conjunct1, rule_format, OF both, unfolded shape(3) joined]
  note c3 = inactive [where ts = "''22:00-02:00,09:00-12:00;Mon''" and t = "?u",
      THEN conjunct2, THEN conjunct2, rule_format, OF conjI [OF active other],
      unfolded now range]
  from shape(1) shape(2) days c1 c2 active c3 show ?thesis
    by (intro conjI)
qed

section \<open>Properties of the repository\<close>

subsection \<open>Keys and store operations\<close>

lemma getAgentKey_inj [simp]: "getAgentKey cc a = getAgentKey cc b \<longleftrightarrow> a = b"
  by (simp add: getAgentKey_def)

lemma loggedInKey_inj [simp]:
  "getQueueLoggedInAgentsKey cc q = getQueueLoggedInAgentsKey cc q' \<longleftrightarrow> q = q'"
  by (simp add: getQueueLoggedInAgentsKey_def)

lemma masterAgentsKey_neq_loggedInKey [simp]:
  "getMasterAgentsKey cc \<noteq> getQueueLoggedInAgentsKey cc q"
  "getQueueLoggedInAgentsKey cc q \<noteq> getMasterAgentsKey cc"
  by (simp_all add: getMasterAgentsKey_def getQueueLoggedInAgentsKey_def)

lemma sadd_fields [simp]:
  "agentHashes (sadd s k m) = agentHashes s"
  "queueHashes (sadd s k m) = queueHashes s"
  "redisLists (sadd s k m) = redisLists s"
  "redisStrings (sadd s k m) = redisStrings s"
  by (simp_all add: sadd_def)

lemma set_sadd:
  "set (redisSets (sadd s k m) k') =
     (if k' = k then insert m (set (redisSets s k')) else set (redisSets s k'))"
  by (auto simp: sadd_def)

lemma srem_fields [simp]:
  "agentHashes (srem s k m) = agentHashes s"
  "queueHashes (srem s k m) = queueHashes s"
  "redisLists (srem s k m) = redisLists s"
  "redisStrings (srem s k m) = redisStrings s"
  by (simp_all add: srem_def)

lemma set_srem:
  "set (redisSets (srem s k m) k') =
     (if k' = k then set (redisSets s k') - {m} else set (redisSets s k'))"
  by (auto simp: srem_def)

lemma loginLoop_fields [simp]:
  "agentHashes (loginLoop s cc a qs) = agentHashes s"
  "queueHashes (loginLoop s cc a qs) = queueHashes s"
  "redisLists (loginLoop s cc a qs) = redisLists s"
  "redisStrings (loginLoop s cc a qs) = redisStrings s"
  by (induction qs arbitrary: s; simp)+

lemma set_loginLoop:
  "set (redisSets (loginLoop s cc a qs) k) =
     (if k \<in> getQueueLoggedInAgentsKey cc ` set qs then insert a (set (redisSets s k))
      else set (redisSets s k))"
  by (induction qs arbitrary: s) (auto simp: set_sadd)

lemma logoutLoop_fields [simp]:
  "agentHashes (logoutLoop s cc a qs) = agentHashes s"
  "queueHashes (logoutLoop s cc a qs) = queueHashes s"
  "redisLists (logoutLoop s cc a qs) = redisLists s"
  "redisStrings (logoutLoop s cc a qs) = redisStrings s"
  by (induction qs arbitrary: s; simp)+

lemma set_logoutLoop:
  "set (redisSets (logoutLoop s cc a qs) k) =
     (if k \<in> getQueueLoggedInAgentsKey cc ` set qs then set (redisSets s k) - {a}
      else set (redisSets s k))"
  by (induction qs arbitrary: s) (auto simp: set_srem)

lemma succeededTrue_iff: "succeededTrue r \<longleftrightarrow> r = Inr True"
  by (cases r) (auto simp: succeededTrue_def)

lemma getAgentDetails_Inr_iff:
  "getAgentDetails s cc a = Inr d \<longleftrightarrow>
     cc \<noteq> [] \<and> a \<noteq> [] \<and> agentHashes s (getAgentKey cc a) = Some d"
  by (auto simp: getAgentDetails_def split: option.splits)

lemmas key_defs =
  getQueueKey_def getAgentKey_def getQueueLoggedInAgentsKey_def getMasterQueuesKey_def
  getMasterAgentsKey_def getQueueCallsKey_def getQueueLastAgentRRKey_def

lemmas repo_eval_defs =
  addAgent_def agentLogin_def agentLogout_def getAgentDetails_def isAgentOnShift_def
  succeededTrue_def sadd_def srem_def smembers_def redisGet_def redisSet_def rpush_def
  emptyStore_def key_defs Let_def


subsection \<open>Login, logout and the membership invariant\<close>

lemma agentLogin_failure:
  assumes "\<not> ((\<exists>d. getAgentDetails s cc a = Inr d \<and> status d = ''LOGGED_OUT'') \<and>
        (force \<or> isAgentOnShift s cc a now = Inr True))"
  shows "\<exists>e. agentLogin s cc a qs force now = (Inl e, s)"
  using assms by (auto simp: agentLogin_def succeededTrue_iff split: sum.splits)

lemma agentLogin_success:
  assumes "getAgentDetails s cc a = Inr d" and "status d = ''LOGGED_OUT''"
    and "force \<or> isAgentOnShift s cc a now = Inr True"
  shows "agentLogin s cc a qs force now =
     (Inr (), loginLoop (s\<lparr>agentHashes := (agentHashes s)
                 (getAgentKey cc a \<mapsto> d\<lparr>status := ''AVAILABLE'', loggedInQueues := qs\<rparr>)\<rparr>) cc a qs)"
proof -
  from assms(1) have "cc \<noteq> []" "a \<noteq> []"
    by (simp_all add: getAgentDetails_Inr_iff)
  with assms show ?thesis
    by (auto simp: agentLogin_def succeededTrue_iff Let_def)
qed

lemma agentLogin_cases:
  "(\<exists>e. agentLogin s cc a qs force now = (Inl e, s)) \<or>
   (\<exists>d. agentHashes s (getAgentKey cc a) = Some d \<and> status d = ''LOGGED_OUT'' \<and>
      agentLogin s cc a qs force now =
        (Inr (), loginLoop (s\<lparr>agentHashes := (agentHashes s)
                 (getAgentKey cc a \<mapsto> d\<lparr>status := ''AVAILABLE'', loggedInQueues := qs\<rparr>)\<rparr>) cc a qs))"
proof (cases "(\<exists>d. getAgentDetails s cc a = Inr d \<and> status d = ''LOGGED_OUT'') \<and>
        (force \<or> isAgentOnShift s cc a now = Inr True)")
  case True
  then obtain d where d: "getAgentDetails s cc a = Inr d" "status d = ''LOGGED_OUT''"
    and f: "force \<or> isAgentOnShift s cc a now = Inr True" by blast
  from agentLogin_success [OF d f] d show ?thesis
    by (auto simp: getAgentDetails_Inr_iff)
next
  case False
  from agentLogin_failure [OF this] show ?thesis by blast
qed

lemma agentLogout_cases:
  "(\<exists>e. agentLogout s cc a = (Inl e, s)) \<or>
   (\<exists>d. agentHashes s (getAgentKey cc a) = Some d \<and> status d \<noteq> ''LOGGED_OUT'' \<and>
      agentLogout s cc a =
        (Inr (), (logoutLoop s cc a (loggedInQueues d))\<lparr>agentHashes := (agentHashes s)
                 (getAgentKey cc a \<mapsto> d\<lparr>status := ''LOGGED_OUT'', loggedInQueues := []\<rparr>)\<rparr>))"
  by (auto simp: agentLogout_def Let_def split: option.splits)

lemma addAgent_cases:
  "(\<exists>e. addAgent s cc a nm ep sh = (Inl e, s)) \<or>
   (\<exists>d. status d = ''LOGGED_OUT'' \<and> loggedInQueues d = [] \<and>
      addAgent s cc a nm ep sh =
        (Inr d, sadd (s\<lparr>agentHashes := (agentHashes s)(getAgentKey cc a \<mapsto> d)\<rparr>) (getMasterAgentsKey cc) a))"
  by (auto simp: addAgent_def Let_def)

lemma agentConsistent_cong:
  assumes "agentHashes s' (getAgentKey cc a) = agentHashes s (getAgentKey cc a)"
    and "\<And>q. a \<in> set (redisSets s' (getQueueLoggedInAgentsKey cc q)) \<longleftrightarrow>
              a \<in> set (redisSets s (getQueueLoggedInAgentsKey cc q))"
  shows "agentConsistent cc s' a \<longleftrightarrow> agentConsistent cc s a"
  unfolding agentConsistent_def assms ..

lemma agentConsistent_absent:
  "agentHashes s (getAgentKey cc a) = None \<Longrightarrow> agentConsistent cc s a \<Longrightarrow>
     a \<notin> set (redisSets s (getQueueLoggedInAgentsKey cc q))"
  by (simp add: agentConsistent_def)

lemma agentConsistent_loggedOut:
  "agentHashes s (getAgentKey cc a) = Some d \<Longrightarrow> status d = ''LOGGED_OUT'' \<Longrightarrow>
     agentConsistent cc s a \<Longrightarrow>
     loggedInQueues d = [] \<and> a \<notin> set (redisSets s (getQueueLoggedInAgentsKey cc q))"
  by (auto simp: agentConsistent_def)

lemma agentConsistent_loggedIn:
  "agentHashes s (getAgentKey cc a) = Some d \<Longrightarrow> status d \<noteq> ''LOGGED_OUT'' \<Longrightarrow>
     agentConsistent cc s a \<Longrightarrow>
     status d = ''AVAILABLE'' \<and>
     (a \<in> set (redisSets s (getQueueLoggedInAgentsKey cc q)) \<longleftrightarrow> q \<in> set (loggedInQueues d))"
  by (auto simp: agentConsistent_def)

lemma consistent_addAgent:
  assumes c: "repositoryConsistent cc s" and f: "freshAdd cc s (AddAgent a nm ep sh)"
  shows "repositoryConsistent cc (snd (addAgent s cc a nm ep sh))"
  using addAgent_cases [of s cc a nm ep sh]
proof (elim disjE exE conjE)
  fix e assume "addAgent s cc a nm ep sh = (Inl e, s)"
  with c show ?thesis by simp
next
  fix d assume d: "status d = ''LOGGED_OUT''" "loggedInQueues d = []"
    and run: "addAgent s cc a nm ep sh =
        (Inr d, sadd (s\<lparr>agentHashes := (agentHashes s)(getAgentKey cc a \<mapsto> d)\<rparr>) (getMasterAgentsKey cc) a)"
  let ?s' = "sadd (s\<lparr>agentHashes := (agentHashes s)(getAgentKey cc a \<mapsto> d)\<rparr>) (getMasterAgentsKey cc) a"
  from c have ca: "agentConsistent cc s b" for b
    by (simp add: repositoryConsistent_def)
  have sets: "set (redisSets ?s' (getQueueLoggedInAgentsKey cc q)) =
                set (redisSets s (getQueueLoggedInAgentsKey cc q))" for q
    by (simp add: set_sadd)
  have out: "a \<notin> set (redisSets s (getQueueLoggedInAgentsKey cc q))" for q
  proof (cases "agentHashes s (getAgentKey cc a)")
    case None
    from agentConsistent_absent [OF None ca] show ?thesis .
  next
    case (Some d0)
    with f have "status d0 = ''LOGGED_OUT''" by simp
    from agentConsistent_loggedOut [OF Some this ca] show ?thesis by simp
  qed
  have "agentConsistent cc ?s' b" for b
  proof (cases "b = a")
    case True
    then show ?thesis
      using d out by (simp add: agentConsistent_def sets)
  next
    case False
    then have "agentConsistent cc ?s' b \<longleftrightarrow> agentConsistent cc s b"
      by (intro agentConsistent_cong) (simp_all add: sets)
    with ca show ?thesis by simp
  qed
  then show ?thesis
    by (simp add: run repositoryConsistent_def)
qed

lemma consistent_agentLogin:
  assumes c: "repositoryConsistent cc s"
  shows "repositoryConsistent cc (snd (agentLogin s cc a qs force now))"
  using agentLogin_cases [of s cc a qs force now]
proof (elim disjE exE conjE)
  fix e assume "agentLogin s cc a qs force now = (Inl e, s)"
  with c show ?thesis by simp
next
  fix d assume d: "agentHashes s (getAgentKey cc a) = Some d" "status d = ''LOGGED_OUT''"
    and run: "agentLogin s cc a qs force now =
        (Inr (), loginLoop (s\<lparr>agentHashes := (agentHashes s)
                 (getAgentKey cc a \<mapsto> d\<lparr>status := ''AVAILABLE'', loggedInQueues := qs\<rparr>)\<rparr>) cc a qs)"
  let ?s' = "loginLoop (s\<lparr>agentHashes := (agentHashes s)
                 (getAgentKey cc a \<mapsto> d\<lparr>status := ''AVAILABLE'', loggedInQueues := qs\<rparr>)\<rparr>) cc a qs"
  from c have ca: "agentConsistent cc s b" for b
    by (simp add: repositoryConsistent_def)
  have sets: "set (redisSets ?s' (getQueueLoggedInAgentsKey cc q)) =
     (if q \<in> set qs then insert a (set (redisSets s (getQueueLoggedInAgentsKey cc q)))
      else set (redisSets s (getQueueLoggedInAgentsKey cc q)))" for q
    by (auto simp: set_loginLoop)
  from agentConsistent_loggedOut [OF d ca]
  have out: "a \<notin> set (redisSets s (getQueueLoggedInAgentsKey cc q))" for q
    by simp
  have "agentConsistent cc ?s' b" for b
  proof (cases "b = a")
    case True
    then show ?thesis
      using out by (simp add: agentConsistent_def sets)
  next
    case False
    then have "agentConsistent cc ?s' b \<longleftrightarrow> agentConsistent cc s b"
      by (intro agentConsistent_cong) (simp_all add: sets)
    with ca show ?thesis by simp
  qed
  then show ?thesis
    by (simp add: run repositoryConsistent_def)
qed

lemma consistent_agentLogout:
  assumes c: "repositoryConsistent cc s"
  shows "repositoryConsistent cc (snd (agentLogout s cc a))"
  using agentLogout_cases [of s cc a]
proof (elim disjE exE conjE)
  fix e assume "agentLogout s cc a = (Inl e, s)"
  with c show ?thesis by simp
next
  fix d assume d: "agentHashes s (getAgentKey cc a) = Some d" "status d \<noteq> ''LOGGED_OUT''"
    and run: "agentLogout s cc a =
        (Inr (), (logoutLoop s cc a (loggedInQueues d))\<lparr>agentHashes := (agentHashes s)
                 (getAgentKey cc a \<mapsto> d\<lparr>status := ''LOGGED_OUT'', loggedInQueues := []\<rparr>)\<rparr>)"
  let ?s' = "(logoutLoop s cc a (loggedInQueues d))\<lparr>agentHashes := (agentHashes s)
                 (getAgentKey cc a \<mapsto> d\<lparr>status := ''LOGGED_OUT'', loggedInQueues := []\<rparr>)\<rparr>"
  from c have ca: "agentConsistent cc s b" for b
    by (simp add: repositoryConsistent_def)
  have sets: "set (redisSets (logoutLoop s cc a (loggedInQueues d)) (getQueueLoggedInAgentsKey cc q)) =
     (if q \<in> set (loggedInQueues d) then set (redisSets s (getQueueLoggedInAgentsKey cc q)) - {a}
      else set (redisSets s (getQueueLoggedInAgentsKey cc q)))" for q
    by (auto simp: set_logoutLoop)
  from agentConsistent_loggedIn [OF d ca]
  have mem: "a \<in> set (redisSets s (getQueueLoggedInAgentsKey cc q)) \<longleftrightarrow> q \<in> set (loggedInQueues d)" for q
    by simp
  have "agentConsistent cc ?s' b" for b
  proof (cases "b = a")
    case True
    then show ?thesis
      using mem by (simp add: agentConsistent_def sets)
  next
    case False
    then have "agentConsistent cc ?s' b \<longleftrightarrow> agentConsistent cc s b"
      by (intro agentConsistent_cong) (simp_all add: sets)
    with ca show ?thesis by simp
  qed
  then show ?thesis
    by (simp add: run repositoryConsistent_def)
qed

lemma consistent_applyOp:
  "repositoryConsistent cc s \<Longrightarrow> freshAdd cc s x \<Longrightarrow> repositoryConsistent cc (applyOp cc s x)"
  by (cases x) (simp_all add: consistent_addAgent consistent_agentLogin consistent_agentLogout
      del: freshAdd.simps)

lemma consistent_runOps:
  "repositoryConsistent cc s \<Longrightarrow> freshAdds cc s xs \<Longrightarrow> repositoryConsistent cc (runOps cc s xs)"
  by (induction xs arbitrary: s) (simp_all add: consistent_applyOp)

lemma consistent_emptyStore: "repositoryConsistent cc emptyStore"
  by (simp add: repositoryConsistent_def agentConsistent_def emptyStore_def)

lemma consistent_loginInvariant:
  assumes "repositoryConsistent cc s"
  shows "loginInvariant cc s"
  unfolding loginInvariant_def
proof (intro allI impI)
  fix a d assume "agentHashes s (getAgentKey cc a) = Some d"
  with assms [unfolded repositoryConsistent_def, rule_format, of a]
  show "(status d = ''LOGGED_OUT'' \<longrightarrow>
           loggedInQueues d = [] \<and>
           (\<forall>q. a \<notin> set (redisSets s (getQueueLoggedInAgentsKey cc q)))) \<and>
        (status d = ''AVAILABLE'' \<longrightarrow>
           (\<forall>q. a \<in> set (redisSets s (getQueueLoggedInAgentsKey cc q)) \<longleftrightarrow>
                q \<in> set (loggedInQueues d)))"
    by (auto simp: agentConsistent_def)
qed


text \<open>
  Claim C3.  After any sequence of \<open>addAgent\<close>, \<open>agentLogin\<close> and \<open>agentLogout\<close>, a
  \<open>LOGGED_OUT\<close> agent should have no queues and be in no logged-in set.  \<open>addAgent\<close>, whose
  documentation reads \<open>Adds a new agent\<close>, does not look whether the agent exists: applied
  to an agent who is logged in, it writes the record anew as \<open>LOGGED_OUT\<close> with no queues
  and removes the agent from no logged-in set, where \<open>agentLogout\<close> removes the agent from
  each set before it writes that status.  After \<open>addAgent A\<close>, \<open>agentLogin A [Q1]\<close>,
  \<open>addAgent A\<close> the invariant is broken: agent \<open>A\<close> is \<open>LOGGED_OUT\<close> and still in the
  logged-in set of \<open>Q1\<close>.
\<close>

theorem addAgent_overwrites_logged_in_agent:
  "agentHashes
     (runOps ''CC'' emptyStore
        [AddAgent ''A'' ''Alice'' ''PJSIP/a'' ''24/7'',
         AgentLogin ''A'' [''Q1''] False \<lparr>getDay = 1, getHours = 10, getMinutes = 0\<rparr>])
     (getAgentKey ''CC'' ''A'') =
     Some \<lparr>name = ''Alice'', endpoint = ''PJSIP/a'', shiftTimings = ''24/7'',
           status = ''AVAILABLE'', loggedInQueues = [''Q1'']\<rparr> \<and>
   agentHashes
     (runOps ''CC'' emptyStore
        [AddAgent ''A'' ''Alice'' ''PJSIP/a'' ''24/7'',
         AgentLogin ''A'' [''Q1''] False \<lparr>getDay = 1, getHours = 10, getMinutes = 0\<rparr>,
         AddAgent ''A'' ''Alice'' ''PJSIP/a'' ''24/7''])
     (getAgentKey ''CC'' ''A'') =
     Some \<lparr>name = ''Alice'', endpoint = ''PJSIP/a'', shiftTimings = ''24/7'',
           status = ''LOGGED_OUT'', loggedInQueues = []\<rparr> \<and>
   smembers
     (runOps ''CC'' emptyStore
        [AddAgent ''A'' ''Alice'' ''PJSIP/a'' ''24/7'',
         AgentLogin ''A'' [''Q1''] False \<lparr>getDay = 1, getHours = 10, getMinutes = 0\<rparr>,
         AddAgent ''A'' ''Alice'' ''PJSIP/a'' ''24/7''])
     (getQueueLoggedInAgentsKey ''CC'' ''Q1'') = [''A'']"
  by (simp add: repo_eval_defs timing_eval_defs smembers_def)

text \<open>Hence the invariant does not hold of the store after these three operations.\<close>

lemma loginInvariant_broken_by_addAgent:
  "\<not> loginInvariant ''CC''
       (runOps ''CC'' emptyStore
          [AddAgent ''A'' ''Alice'' ''PJSIP/a'' ''24/7'',
           AgentLogin ''A'' [''Q1''] False \<lparr>getDay = 1, getHours = 10, getMinutes = 0\<rparr>,
           AddAgent ''A'' ''Alice'' ''PJSIP/a'' ''24/7''])"
proof
  let ?sf = "runOps ''CC'' emptyStore
          [AddAgent ''A'' ''Alice'' ''PJSIP/a'' ''24/7'',
           AgentLogin ''A'' [''Q1''] False \<lparr>getDay = 1, getHours = 10, getMinutes = 0\<rparr>,
           AddAgent ''A'' ''Alice'' ''PJSIP/a'' ''24/7'']"
  assume inv: "loginInvariant ''CC'' ?sf"
  have rec: "agentHashes ?sf (getAgentKey ''CC'' ''A'') =
      Some \<lparr>name = ''Alice'', endpoint = ''PJSIP/a'', shiftTimings = ''24/7'',
            status = ''LOGGED_OUT'', loggedInQueues = []\<rparr>"
    by (simp add: repo_eval_defs timing_eval_defs)
  have mem: "''A'' \<in> set (redisSets ?sf (getQueueLoggedInAgentsKey ''CC'' ''Q1''))"
    by (simp add: repo_eval_defs timing_eval_defs)
  from inv [unfolded loginInvariant_def, rule_format, OF rec] mem
  show False by simp
qed


text \<open>
  The defect is confined to that use of \<open>addAgent\<close>: from the empty store, every sequence of
  the three operations in which each \<open>addAgent\<close> is applied to an agent with no record, or
  with a \<open>LOGGED_OUT\<close> record, keeps the invariant.
\<close>

lemma loginInvariant_after_fresh_operations:
  assumes "freshAdds cc emptyStore ops"
  shows "loginInvariant cc (runOps cc emptyStore ops)"
  using assms by (intro consistent_loginInvariant consistent_runOps consistent_emptyStore)

lemma loginInvariant_after_fresh_operations_example:
  "freshAdds ''CC'' emptyStore
     [AddAgent ''A'' ''Alice'' ''PJSIP/a'' ''24/7'',
      AddAgent ''B'' ''Bob'' ''PJSIP/b'' ''24/7'',
      AgentLogin ''A'' [''Q1'', ''Q2''] False \<lparr>getDay = 1, getHours = 10, getMinutes = 0\<rparr>] \<and>
   status (the (agentHashes
     (runOps ''CC'' emptyStore
       [AddAgent ''A'' ''Alice'' ''PJSIP/a'' ''24/7'',
        AddAgent ''B'' ''Bob'' ''PJSIP/b'' ''24/7'',
        AgentLogin ''A'' [''Q1'', ''Q2''] False \<lparr>getDay = 1, getHours = 10, getMinutes = 0\<rparr>])
     (getAgentKey ''CC'' ''A''))) = ''AVAILABLE'' \<and>
   status (the (agentHashes
     (runOps ''CC'' emptyStore
       [AddAgent ''A'' ''Alice'' ''PJSIP/a'' ''24/7'',
        AddAgent ''B'' ''Bob'' ''PJSIP/b'' ''24/7'',
        AgentLogin ''A'' [''Q1'', ''Q2''] False \<lparr>getDay = 1, getHours = 10, getMinutes = 0\<rparr>])
     (getAgentKey ''CC'' ''B''))) = ''LOGGED_OUT'' \<and>
   loginInvariant ''CC''
     (runOps ''CC'' emptyStore
       [AddAgent ''A'' ''Alice'' ''PJSIP/a'' ''24/7'',
        AddAgent ''B'' ''Bob'' ''PJSIP/b'' ''24/7'',
        AgentLogin ''A'' [''Q1'', ''Q2''] False \<lparr>getDay = 1, getHours = 10, getMinutes = 0\<rparr>])"
proof -
  have fresh: "freshAdds ''CC'' emptyStore
     [AddAgent ''A'' ''Alice'' ''PJSIP/a'' ''24/7'',
      AddAgent ''B'' ''Bob'' ''PJSIP/b'' ''24/7'',
      AgentLogin ''A'' [''Q1'', ''Q2''] False \<lparr>getDay = 1, getHours = 10, getMinutes = 0\<rparr>]"
    by (simp add: repo_eval_defs)
  from loginInvariant_after_fresh_operations [OF fresh] fresh show ?thesis
    by (simp add: repo_eval_defs timing_eval_defs)
qed


text \<open>
  Claim C8.  \<open>agentLogin\<close> fails and returns the store as it was when the agent does not
  exist, its status is not \<open>LOGGED_OUT\<close>, or neither \<open>forceLogin\<close> nor the shift check
  holds.  Otherwise it succeeds: the agent's record has status \<open>AVAILABLE\<close> and
  \<open>loggedInQueues\<close> equal to \<open>queueIds\<close>, the agent is a member of the logged-in set of
  every listed queue, and nothing else in the store has changed.
\<close>

theorem agentLogin_contract:
  "(\<not> ((\<exists>d. getAgentDetails s cc a = Inr d \<and> status d = ''LOGGED_OUT'') \<and>
        (force \<or> isAgentOnShift s cc a now = Inr True)) \<longrightarrow>
      (\<exists>e. agentLogin s cc a qs force now = (Inl e, s))) \<and>
   (\<forall>d. getAgentDetails s cc a = Inr d \<and> status d = ''LOGGED_OUT'' \<and>
        (force \<or> isAgentOnShift s cc a now = Inr True) \<longrightarrow>
      (\<exists>s'. agentLogin s cc a qs force now = (Inr (), s') \<and>
         agentHashes s' =
           (agentHashes s)(getAgentKey cc a \<mapsto> d\<lparr>status := ''AVAILABLE'', loggedInQueues := qs\<rparr>) \<and>
         (\<forall>q \<in> set qs. a \<in> set (redisSets s' (getQueueLoggedInAgentsKey cc q))) \<and>
         (\<forall>k. set (redisSets s' k) =
            (if k \<in> getQueueLoggedInAgentsKey cc ` set qs then insert a (set (redisSets s k))
             else set (redisSets s k))) \<and>
         queueHashes s' = queueHashes s \<and> redisLists s' = redisLists s \<and>
         redisStrings s' = redisStrings s))"
proof (intro conjI impI allI)
  assume "\<not> ((\<exists>d. getAgentDetails s cc a = Inr d \<and> status d = ''LOGGED_OUT'') \<and>
        (force \<or> isAgentOnShift s cc a now = Inr True))"
  then show "\<exists>e. agentLogin s cc a qs force now = (Inl e, s)"
    by (rule agentLogin_failure)
next
  fix d
  assume h: "getAgentDetails s cc a = Inr d \<and> status d = ''LOGGED_OUT'' \<and>
        (force \<or> isAgentOnShift s cc a now = Inr True)"
  let ?s1 = "s\<lparr>agentHashes := (agentHashes s)
                 (getAgentKey cc a \<mapsto> d\<lparr>status := ''AVAILABLE'', loggedInQueues := qs\<rparr>)\<rparr>"
  from h have run: "agentLogin s cc a qs force now = (Inr (), loginLoop ?s1 cc a qs)"
    by (intro agentLogin_success) simp_all
  show "\<exists>s'. agentLogin s cc a qs force now = (Inr (), s') \<and>
         agentHashes s' =
           (agentHashes s)(getAgentKey cc a \<mapsto> d\<lparr>status := ''AVAILABLE'', loggedInQueues := qs\<rparr>) \<and>
         (\<forall>q \<in> set qs. a \<in> set (redisSets s' (getQueueLoggedInAgentsKey cc q))) \<and>
         (\<forall>k. set (redisSets s' k) =
            (if k \<in> getQueueLoggedInAgentsKey cc ` set qs then insert a (set (redisSets s k))
             else set (redisSets s k))) \<and>
         queueHashes s' = queueHashes s \<and> redisLists s' = redisLists s \<and>
         redisStrings s' = redisStrings s"
    unfolding run by (rule exI [of _ "loginLoop ?s1 cc a qs"]) (simp add: set_loginLoop)
qed

theorem agentLogin_contract_witness:
  "getAgentDetails (snd (addAgent emptyStore ''CC'' ''A'' ''Alice'' ''PJSIP/a'' ''09:00-17:00;Mon-Fri''))
     ''CC'' ''A'' =
     Inr \<lparr>name = ''Alice'', endpoint = ''PJSIP/a'', shiftTimings = ''09:00-17:00;Mon-Fri'',
          status = ''LOGGED_OUT'', loggedInQueues = []\<rparr> \<and>
   isAgentOnShift (snd (addAgent emptyStore ''CC'' ''A'' ''Alice'' ''PJSIP/a'' ''09:00-17:00;Mon-Fri''))
     ''CC'' ''A'' \<lparr>getDay = 1, getHours = 10, getMinutes = 0\<rparr> = Inr True \<and>
   (\<exists>s'. agentLogin (snd (addAgent emptyStore ''CC'' ''A'' ''Alice'' ''PJSIP/a'' ''09:00-17:00;Mon-Fri''))
            ''CC'' ''A'' [''Q1'', ''Q2''] False \<lparr>getDay = 1, getHours = 10, getMinutes = 0\<rparr> = (Inr (), s') \<and>
      ''A'' \<in> set (redisSets s' (getQueueLoggedInAgentsKey ''CC'' ''Q2''))) \<and>
   isAgentOnShift (snd (addAgent emptyStore ''CC'' ''A'' ''Alice'' ''PJSIP/a'' ''09:00-17:00;Mon-Fri''))
     ''CC'' ''A'' \<lparr>getDay = 0, getHours = 10, getMinutes = 0\<rparr> = Inr False \<and>
   (\<exists>e. agentLogin (snd (addAgent emptyStore ''CC'' ''A'' ''Alice'' ''PJSIP/a'' ''09:00-17:00;Mon-Fri''))
            ''CC'' ''A'' [''Q1'', ''Q2''] False \<lparr>getDay = 0, getHours = 10, getMinutes = 0\<rparr> =
          (Inl e, snd (addAgent emptyStore ''CC'' ''A'' ''Alice'' ''PJSIP/a'' ''09:00-17:00;Mon-Fri'')))"
proof -
  let ?s = "snd (addAgent emptyStore ''CC'' ''A'' ''Alice'' ''PJSIP/a'' ''09:00-17:00;Mon-Fri'')"
  let ?d = "\<lparr>name = ''Alice'', endpoint = ''PJSIP/a'', shiftTimings = ''09:00-17:00;Mon-Fri'',
          status = ''LOGGED_OUT'', loggedInQueues = []\<rparr>"
  have det: "getAgentDetails ?s ''CC'' ''A'' = Inr ?d"
    by (simp add: repo_eval_defs)
  have on: "isAgentOnShift ?s ''CC'' ''A'' \<lparr>getDay = 1, getHours = 10, getMinutes = 0\<rparr> = Inr True"
    by (simp add: repo_eval_defs timing_eval_defs)
  have off: "isAgentOnShift ?s ''CC'' ''A'' \<lparr>getDay = 0, getHours = 10, getMinutes = 0\<rparr> = Inr False"
    by (simp add: repo_eval_defs timing_eval_defs)
  have ok: "\<exists>s'. agentLogin ?s ''CC'' ''A'' [''Q1'', ''Q2''] False \<lparr>getDay = 1, getHours = 10, getMinutes = 0\<rparr> = (Inr (), s') \<and>
      ''A'' \<in> set (redisSets s' (getQueueLoggedInAgentsKey ''CC'' ''Q2''))"
    using agentLogin_contract [of ?s "''CC''" "''A''" False "\<lparr>getDay = 1, getHours = 10, getMinutes = 0\<rparr>" "[''Q1'', ''Q2'']"]
      det on by auto
  have ko: "\<exists>e. agentLogin ?s ''CC'' ''A'' [''Q1'', ''Q2''] False \<lparr>getDay = 0, getHours = 10, getMinutes = 0\<rparr> = (Inl e, ?s)"
    using agentLogin_contract [of ?s "''CC''" "''A''" False "\<lparr>getDay = 0, getHours = 10, getMinutes = 0\<rparr>" "[''Q1'', ''Q2'']"]
      off by simp
  from det on ok off ko show ?thesis by blast
qed

section \<open>Properties of the round-robin selector\<close>

lemma indexOf_nonneg: "x \<in> set xs \<Longrightarrow> 0 \<le> indexOf xs x"
  by (induction xs) (auto simp: Let_def)

lemma indexOf_notin: "x \<notin> set xs \<Longrightarrow> indexOf xs x = - 1"
  by (induction xs) (auto simp: Let_def)

lemma indexOf_first:
  "x \<in> set xs \<Longrightarrow>
     nat (indexOf xs x) < length xs \<and> xs ! nat (indexOf xs x) = x \<and>
     (\<forall>j < nat (indexOf xs x). xs ! j \<noteq> x)"
proof (induction xs)
  case Nil
  then show ?case by simp
next
  case (Cons y ys)
  show ?case
  proof (cases "y = x")
    case True
    then show ?thesis by simp
  next
    case False
    with Cons.prems have mem: "x \<in> set ys" by simp
    from indexOf_nonneg [OF mem] have nn: "0 \<le> indexOf ys x" .
    then have eq: "indexOf (y # ys) x = indexOf ys x + 1"
      using False by (auto simp: Let_def)
    have nat_eq: "nat (indexOf ys x + 1) = Suc (nat (indexOf ys x))"
      using nn by simp
    from Cons.IH [OF mem] False show ?thesis
      unfolding eq nat_eq by (auto simp: nth_Cons split: nat.splits)
  qed
qed

lemma indexOf_nth_distinct:
  "distinct xs \<Longrightarrow> i < length xs \<Longrightarrow> indexOf xs (xs ! i) = int i"
proof (induction xs arbitrary: i)
  case Nil
  then show ?case by simp
next
  case (Cons y ys)
  show ?case
  proof (cases i)
    case 0
    then show ?thesis by simp
  next
    case (Suc j)
    with Cons.prems have j: "j < length ys" and d: "distinct ys" and ny: "y \<notin> set ys"
      by simp_all
    from j ny have "ys ! j \<noteq> y" by (metis nth_mem)
    with Cons.IH [OF d j] Suc show ?thesis
      by (simp add: Let_def)
  qed
qed

lemma trulyAvailableAgents_filter:
  "trulyAvailableAgents s cc t xs = filter (eligibleAgent s cc t) xs"
  by (induction xs) (auto simp: eligibleAgent_def succeededTrue_iff split: sum.splits)

lemma eligibleAgent_nonempty: "eligibleAgent s cc t a \<Longrightarrow> a \<noteq> []"
  by (auto simp: eligibleAgent_def getAgentDetails_def)

lemma eligibleList_nonempty_ids: "[] \<notin> set (eligibleList s cc q t)"
  by (auto simp: eligibleList_def dest: eligibleAgent_nonempty)

lemma js_nth_Some: "i < length xs \<Longrightarrow> js_nth xs i = Some (xs ! i)"
  by (simp add: js_nth_def)

lemma nextPosition_less: "agents \<noteq> [] \<Longrightarrow> nextPosition agents p < length agents"
  by (auto simp: nextPosition_def split: option.splits)
     (metis length_greater_0_conv nat_less_iff of_nat_0_less_iff pos_mod_bound pos_mod_sign)

lemma selectNext_nextPosition:
  assumes "agents \<noteq> []" and "[] \<notin> set agents"
  shows "selectNext agents p = Some (agents ! nextPosition agents p)"
proof -
  have pos: "nextPosition agents p < length agents"
    by (rule nextPosition_less [OF assms(1)])
  have zero: "js_nth agents 0 = Some (agents ! 0)"
    using assms(1) by (simp add: js_nth_def)
  show ?thesis
  proof (cases p)
    case None
    then show ?thesis
      by (simp add: selectNext_def nextPosition_def zero)
  next
    case (Some l)
    show ?thesis
    proof (cases "l \<in> set agents")
      case True
      with assms(2) have "l \<noteq> []" by auto
      with True Some pos show ?thesis
        by (simp add: selectNext_def nextPosition_def js_nth_def)
    next
      case False
      with Some show ?thesis
        by (simp add: selectNext_def nextPosition_def zero)
    qed
  qed
qed

lemma findAgent_eligible:
  assumes "cc \<noteq> []" and "q \<noteq> []"
  shows "findAgentForCall_RoundRobin s cc q t =
     (if eligibleList s cc q t = [] then (Inr None, s)
      else (Inr (Some (eligibleList s cc q t ! nextPosition (eligibleList s cc q t)
                         (redisGet s (getQueueLastAgentRRKey cc q)))),
            redisSet s (getQueueLastAgentRRKey cc q)
              (eligibleList s cc q t ! nextPosition (eligibleList s cc q t)
                 (redisGet s (getQueueLastAgentRRKey cc q)))))"
proof (cases "eligibleList s cc q t = []")
  case True
  then have "filter (eligibleAgent s cc t) (smembers s (getQueueLoggedInAgentsKey cc q)) = []"
    by (metis eligibleList_def length_sort length_0_conv)
  with assms True show ?thesis
    by (simp add: findAgentForCall_RoundRobin_def Let_def trulyAvailableAgents_filter)
next
  case False
  let ?es = "eligibleList s cc q t"
  let ?p = "redisGet s (getQueueLastAgentRRKey cc q)"
  from False have ne: "filter (eligibleAgent s cc t) (smembers s (getQueueLoggedInAgentsKey cc q)) \<noteq> []"
    by (auto simp: eligibleList_def)
  then have mem: "smembers s (getQueueLoggedInAgentsKey cc q) \<noteq> []"
    by auto
  have sel: "selectNext ?es ?p = Some (?es ! nextPosition ?es ?p)"
    by (rule selectNext_nextPosition [OF False eligibleList_nonempty_ids])
  have "?es ! nextPosition ?es ?p \<in> set ?es"
    using nextPosition_less [OF False] by simp
  with eligibleList_nonempty_ids have nonempty: "?es ! nextPosition ?es ?p \<noteq> []"
    by metis
  show ?thesis
    using assms False ne mem sel nonempty
    by (simp add: findAgentForCall_RoundRobin_def Let_def trulyAvailableAgents_filter
        eligibleList_def [symmetric])
qed

lemma eligibleList_empty_iff:
  "eligibleList s cc q t = [] \<longleftrightarrow>
     filter (eligibleAgent s cc t) (smembers s (getQueueLoggedInAgentsKey cc q)) = []"
  by (metis eligibleList_def length_sort length_0_conv)

lemma findAgent_invalid:
  "cc = [] \<or> q = [] \<Longrightarrow>
     findAgentForCall_RoundRobin s cc q t = (Inl ''callCenterId and queueId are required.'', s)"
  by (simp add: findAgentForCall_RoundRobin_def)

lemma nextPosition_cases:
  assumes "agents \<noteq> []"
  shows "case p of
           None \<Rightarrow> nextPosition agents p = 0
         | Some l \<Rightarrow>
             if l \<in> set agents then
               (\<exists>i < length agents. agents ! i = l \<and> (\<forall>j < i. agents ! j \<noteq> l) \<and>
                  nextPosition agents p = (i + 1) mod length agents)
             else nextPosition agents p = 0"
proof (cases p)
  case None
  then show ?thesis by (simp add: nextPosition_def)
next
  case (Some l)
  show ?thesis
  proof (cases "l \<in> set agents")
    case False
    with Some show ?thesis by (simp add: nextPosition_def)
  next
    case True
    let ?i = "nat (indexOf agents l)"
    from indexOf_first [OF True] have i: "?i < length agents" "agents ! ?i = l"
      "\<forall>j < ?i. agents ! j \<noteq> l" by simp_all
    from indexOf_nonneg [OF True] have "indexOf agents l = int ?i" by simp
    then have "nat ((indexOf agents l + 1) mod int (length agents)) = (?i + 1) mod length agents"
      by (metis nat_int of_nat_1 of_nat_add zmod_int)
    with True Some have "nextPosition agents p = (?i + 1) mod length agents"
      by (simp add: nextPosition_def)
    with i True Some show ?thesis by auto
  qed
qed


lemma scenarioStore_members:
  "smembers scenarioStore (getQueueLoggedInAgentsKey ''CC'' ''Q1'') = [''C'', ''A'', ''B'']"
  by (simp add: scenarioStore_def mondayMorning_def createQueue_def repo_eval_defs timing_eval_defs)

lemma scenarioStore_eligible:
  "eligibleList scenarioStore ''CC'' ''Q1'' mondayMorning = [''A'', ''B'', ''C'']"
  unfolding eligibleList_def scenarioStore_members
  by (simp add: eligibleAgent_def scenarioStore_def mondayMorning_def createQueue_def
      repo_eval_defs timing_eval_defs)

lemma scenarioStore_pointer:
  "redisGet scenarioStore (getQueueLastAgentRRKey ''CC'' ''Q1'') = None"
  by (simp add: scenarioStore_def mondayMorning_def createQueue_def repo_eval_defs timing_eval_defs)

subsection \<open>Rotation\<close>

lemma stepsTo_less: "i < k \<Longrightarrow> m < k \<Longrightarrow> stepsTo k i m < k"
  by (auto simp: stepsTo_def)

lemma stepsTo_next:
  assumes "i < k" and "m < k"
  shows "stepsTo k ((i + 1) mod k) m = (if i = m then k - 1 else stepsTo k i m - 1)"
proof (cases "i + 1 = k")
  case True
  then have "(i + 1) mod k = 0" by simp
  with True assms show ?thesis by (auto simp: stepsTo_def)
next
  case False
  with assms have "(i + 1) mod k = i + 1" by simp
  with assms show ?thesis by (auto simp: stepsTo_def)
qed

lemma stepsTo_pos: "i \<noteq> m \<Longrightarrow> i < k \<Longrightarrow> m < k \<Longrightarrow> 0 < stepsTo k i m"
  by (auto simp: stepsTo_def)

lemma count_rotation:
  assumes "i < k" and "m < k"
  shows "count_list (rotation k i n) m = (n + k - 1 - stepsTo k i m) div k"
  using assms(1)
proof (induction n arbitrary: i)
  case 0
  from stepsTo_less [OF 0 assms(2)] show ?case by simp
next
  case (Suc n)
  from Suc.prems have k: "0 < k" by simp
  then have next_less: "(i + 1) mod k < k" by simp
  note IH = Suc.IH [OF next_less]
  show ?case
  proof (cases "i = m")
    case True
    then have "stepsTo k i m = 0" by (simp add: stepsTo_def)
    moreover have "stepsTo k ((i + 1) mod k) m = k - 1"
      using stepsTo_next [OF Suc.prems assms(2)] True by simp
    moreover have "(n + k) div k = n div k + 1"
      using k by (simp add: div_add_self2)
    ultimately show ?thesis
      using True IH k by simp
  next
    case False
    from stepsTo_pos [OF False Suc.prems assms(2)] have pos: "0 < stepsTo k i m" .
    from stepsTo_less [OF Suc.prems assms(2)] have less: "stepsTo k i m < k" .
    have "stepsTo k ((i + 1) mod k) m = stepsTo k i m - 1"
      using stepsTo_next [OF Suc.prems assms(2)] False by simp
    moreover have "n + k - 1 - (stepsTo k i m - 1) = Suc n + k - 1 - stepsTo k i m"
      using pos less by simp
    ultimately show ?thesis
      using False IH by simp
  qed
qed

lemma count_rotation_bounds:
  assumes "i < k" and "m < k"
  shows "count_list (rotation k i n) m = n div k \<or>
         count_list (rotation k i n) m = (n + k - 1) div k"
proof -
  let ?c = "(n + k - 1 - stepsTo k i m) div k"
  from stepsTo_less [OF assms] have d: "stepsTo k i m \<le> k - 1" by simp
  from assms have k: "0 < k" by simp
  have lo: "n div k \<le> ?c"
    by (rule div_le_mono) (use d k in simp)
  have hi: "?c \<le> (n + k - 1) div k"
    by (rule div_le_mono) simp
  have "(n + k - 1) div k \<le> (n + k) div k"
    by (rule div_le_mono) simp
  also have "\<dots> = n div k + 1" using k by (simp add: div_add_self2)
  finally have gap: "(n + k - 1) div k \<le> n div k + 1" .
  from lo hi gap have "?c = n div k \<or> ?c = (n + k - 1) div k" by linarith
  then show ?thesis
    unfolding count_rotation [OF assms] .
qed

lemma length_rotation [simp]: "length (rotation k i n) = n"
  by (induction n arbitrary: i) simp_all

lemma rotation_less: "0 < k \<Longrightarrow> i < k \<Longrightarrow> x \<in> set (rotation k i n) \<Longrightarrow> x < k"
proof (induction n arbitrary: i)
  case 0
  then show ?case by simp
next
  case (Suc n)
  from Suc.prems(1) have "(i + 1) mod k < k" by simp
  from Suc.IH [OF Suc.prems(1) this] Suc.prems show ?case by auto
qed

lemma rotation_adjacent:
  "Suc j < n \<Longrightarrow> rotation k i n ! Suc j = (rotation k i n ! j + 1) mod k"
proof (induction n arbitrary: i j)
  case 0
  then show ?case by simp
next
  case (Suc n)
  show ?case
  proof (cases j)
    case 0
    with Suc.prems obtain n' where "n = Suc n'" by (cases n) auto
    with 0 show ?thesis by simp
  next
    case (Suc j')
    with Suc.prems have "Suc j' < n" by simp
    from Suc.IH [OF this] Suc show ?thesis by simp
  qed
qed

lemma count_list_map_inj:
  assumes "\<forall>x \<in> set xs. f x = f m \<longrightarrow> x = m"
  shows "count_list (map f xs) (f m) = count_list xs m"
  using assms by (induction xs) auto

lemma redisSet_fields [simp]:
  "agentHashes (redisSet s k v) = agentHashes s"
  "queueHashes (redisSet s k v) = queueHashes s"
  "redisSets (redisSet s k v) = redisSets s"
  "redisLists (redisSet s k v) = redisLists s"
  "redisGet (redisSet s k v) k = Some v"
  by (simp_all add: redisSet_def redisGet_def)

lemma eligibleAgent_redisSet [simp]:
  "eligibleAgent (redisSet s k v) cc t = eligibleAgent s cc t"
  by (rule ext) (simp add: eligibleAgent_def getAgentDetails_def isAgentOnShift_def)

lemma eligibleList_redisSet [simp]:
  "eligibleList (redisSet s k v) cc q t = eligibleList s cc q t"
  by (simp add: eligibleList_def smembers_def)

lemma nextPosition_nth:
  assumes "distinct es" and "i < length es"
  shows "nextPosition es (Some (es ! i)) = (i + 1) mod length es"
proof -
  from assms(2) have mem: "es ! i \<in> set es" by simp
  from indexOf_nth_distinct [OF assms] have "indexOf es (es ! i) = int i" .
  then have "nat ((indexOf es (es ! i) + 1) mod int (length es)) = (i + 1) mod length es"
    by (metis nat_int of_nat_1 of_nat_add zmod_int)
  with mem show ?thesis by (simp add: nextPosition_def)
qed

lemma roundRobinRun_rotation:
  assumes "cc \<noteq> []" and "q \<noteq> []" and "distinct es" and "es \<noteq> []"
    and "\<forall>t \<in> set ts. eligibleList s cc q t = es"
    and "nextPosition es (redisGet s (getQueueLastAgentRRKey cc q)) = i"
  shows "roundRobinRun s cc q ts =
           map (\<lambda>j. Inr (Some (es ! j))) (rotation (length es) i (length ts))"
  using assms(5,6)
proof (induction ts arbitrary: s i)
  case Nil
  then show ?case by simp
next
  case (Cons t ts)
  let ?key = "getQueueLastAgentRRKey cc q"
  from Cons.prems have el: "eligibleList s cc q t = es" by simp
  from nextPosition_less [OF assms(4)] Cons.prems(2) have i: "i < length es" by auto
  have run: "findAgentForCall_RoundRobin s cc q t = (Inr (Some (es ! i)), redisSet s ?key (es ! i))"
    using findAgent_eligible [OF assms(1,2), of s t] el assms(4) Cons.prems(2) by simp
  have el': "\<forall>t \<in> set ts. eligibleList (redisSet s ?key (es ! i)) cc q t = es"
    using Cons.prems(1) by simp
  have pos': "nextPosition es (redisGet (redisSet s ?key (es ! i)) ?key) = (i + 1) mod length es"
    using nextPosition_nth [OF assms(3) i] by simp
  from Cons.IH [OF el' pos'] run show ?case by simp
qed



subsection \<open>The claims about selection\<close>

text \<open>
  Claim C2.  For a queue with valid identifiers, let \<open>es\<close> be the eligible list: the members
  of the queue's logged-in set that are \<open>AVAILABLE\<close> and on shift at the instant of the
  selection, sorted lexicographically.  When \<open>es\<close> is empty the selector returns no agent.
  Otherwise it returns the element after the first occurrence of the pointer,
  \<open>es[(index + 1) mod length]\<close>, when the stored pointer is a member of \<open>es\<close>, and the first
  element of \<open>es\<close> otherwise; and it writes the returned agent back as the pointer.
\<close>

theorem findAgentForCall_RoundRobin_selection:
  assumes "cc \<noteq> []" and "q \<noteq> []"
    and "es = sort (filter (eligibleAgent s cc t) (smembers s (getQueueLoggedInAgentsKey cc q)))"
  shows "(es = [] \<longrightarrow> findAgentForCall_RoundRobin s cc q t = (Inr None, s)) \<and>
     (es \<noteq> [] \<longrightarrow>
        (\<exists>sel. findAgentForCall_RoundRobin s cc q t =
                 (Inr (Some sel), redisSet s (getQueueLastAgentRRKey cc q) sel) \<and>
           (case redisGet s (getQueueLastAgentRRKey cc q) of
              None \<Rightarrow> sel = es ! 0
            | Some l \<Rightarrow>
                if l \<in> set es then
                  (\<exists>i < length es. es ! i = l \<and> (\<forall>j < i. es ! j \<noteq> l) \<and>
                     sel = es ! ((i + 1) mod length es))
                else sel = es ! 0)))"
proof -
  have es: "es = eligibleList s cc q t"
    by (simp add: assms(3) eligibleList_def)
  have run: "findAgentForCall_RoundRobin s cc q t =
     (if es = [] then (Inr None, s)
      else (Inr (Some (es ! nextPosition es (redisGet s (getQueueLastAgentRRKey cc q)))),
            redisSet s (getQueueLastAgentRRKey cc q)
              (es ! nextPosition es (redisGet s (getQueueLastAgentRRKey cc q)))))"
    unfolding es by (rule findAgent_eligible [OF assms(1,2)])
  show ?thesis
  proof (intro conjI impI)
    assume "es = []"
    with run show "findAgentForCall_RoundRobin s cc q t = (Inr None, s)" by simp
  next
    assume ne: "es \<noteq> []"
    let ?p = "redisGet s (getQueueLastAgentRRKey cc q)"
    let ?sel = "es ! nextPosition es ?p"
    from run ne have r: "findAgentForCall_RoundRobin s cc q t =
        (Inr (Some ?sel), redisSet s (getQueueLastAgentRRKey cc q) ?sel)" by simp
    from nextPosition_cases [OF ne, of ?p]
    have "case ?p of
              None \<Rightarrow> ?sel = es ! 0
            | Some l \<Rightarrow>
                if l \<in> set es then
                  (\<exists>i < length es. es ! i = l \<and> (\<forall>j < i. es ! j \<noteq> l) \<and>
                     ?sel = es ! ((i + 1) mod length es))
                else ?sel = es ! 0"
      by (auto split: option.splits if_splits)
    with r show "\<exists>sel. findAgentForCall_RoundRobin s cc q t =
                 (Inr (Some sel), redisSet s (getQueueLastAgentRRKey cc q) sel) \<and>
           (case redisGet s (getQueueLastAgentRRKey cc q) of
              None \<Rightarrow> sel = es ! 0
            | Some l \<Rightarrow>
                if l \<in> set es then
                  (\<exists>i < length es. es ! i = l \<and> (\<forall>j < i. es ! j \<noteq> l) \<and>
                     sel = es ! ((i + 1) mod length es))
                else sel = es ! 0)"
      by blast
  qed
qed


theorem findAgentForCall_RoundRobin_selection_witness:
  "''CC'' \<noteq> [] \<and> ''Q1'' \<noteq> [] \<and>
   [''A'', ''B'', ''C''] =
     sort (filter (eligibleAgent scenarioStore ''CC'' mondayMorning)
             (smembers scenarioStore (getQueueLoggedInAgentsKey ''CC'' ''Q1''))) \<and>
   findAgentForCall_RoundRobin scenarioStore ''CC'' ''Q1'' mondayMorning =
     (Inr (Some ''A''), redisSet scenarioStore (getQueueLastAgentRRKey ''CC'' ''Q1'') ''A'') \<and>
   fst (findAgentForCall_RoundRobin
          (redisSet scenarioStore (getQueueLastAgentRRKey ''CC'' ''Q1'') ''C'')
          ''CC'' ''Q1'' mondayMorning) = Inr (Some ''A'') \<and>
   fst (findAgentForCall_RoundRobin
          (redisSet scenarioStore (getQueueLastAgentRRKey ''CC'' ''Q1'') ''A'')
          ''CC'' ''Q1'' mondayMorning) = Inr (Some ''B'')"
proof -
  have ids: "''CC'' \<noteq> []" "''Q1'' \<noteq> []"
    by simp_all
  have es: "[''A'', ''B'', ''C''] =
     sort (filter (eligibleAgent scenarioStore ''CC'' mondayMorning)
             (smembers scenarioStore (getQueueLoggedInAgentsKey ''CC'' ''Q1'')))"
    using scenarioStore_eligible by (simp add: eligibleList_def)
  have es': "[''A'', ''B'', ''C''] =
     sort (filter (eligibleAgent (redisSet scenarioStore k v) ''CC'' mondayMorning)
             (smembers (redisSet scenarioStore k v) (getQueueLoggedInAgentsKey ''CC'' ''Q1'')))"
    for k v
    using es by (simp add: smembers_def)
  have first: "findAgentForCall_RoundRobin scenarioStore ''CC'' ''Q1'' mondayMorning =
     (Inr (Some ''A''), redisSet scenarioStore (getQueueLastAgentRRKey ''CC'' ''Q1'') ''A'')"
    using findAgentForCall_RoundRobin_selection [OF ids es] scenarioStore_pointer
    by auto
  have wrap: "fst (findAgentForCall_RoundRobin
          (redisSet scenarioStore (getQueueLastAgentRRKey ''CC'' ''Q1'') ''C'')
          ''CC'' ''Q1'' mondayMorning) = Inr (Some ''A'')"
  proof -
    from findAgentForCall_RoundRobin_selection
      [OF ids es' [of "getQueueLastAgentRRKey ''CC'' ''Q1''" "''C''"]]
    obtain sel i where run: "fst (findAgentForCall_RoundRobin
          (redisSet scenarioStore (getQueueLastAgentRRKey ''CC'' ''Q1'') ''C'')
          ''CC'' ''Q1'' mondayMorning) = Inr (Some sel)"
      and i: "i < 3" "[''A'', ''B'', ''C''] ! i = ''C''"
        "sel = [''A'', ''B'', ''C''] ! ((i + 1) mod 3)"
      by auto
    from i(1) have "i = 0 \<or> i = 1 \<or> i = 2" by arith
    with i(2) have "i = 2" by auto
    with i(3) run show ?thesis by simp
  qed
  have succ: "fst (findAgentForCall_RoundRobin
          (redisSet scenarioStore (getQueueLastAgentRRKey ''CC'' ''Q1'') ''A'')
          ''CC'' ''Q1'' mondayMorning) = Inr (Some ''B'')"
  proof -
    from findAgentForCall_RoundRobin_selection
      [OF ids es' [of "getQueueLastAgentRRKey ''CC'' ''Q1''" "''A''"]]
    obtain sel i where run: "fst (findAgentForCall_RoundRobin
          (redisSet scenarioStore (getQueueLastAgentRRKey ''CC'' ''Q1'') ''A'')
          ''CC'' ''Q1'' mondayMorning) = Inr (Some sel)"
      and i: "i < 3" "[''A'', ''B'', ''C''] ! i = ''A''"
        "sel = [''A'', ''B'', ''C''] ! ((i + 1) mod 3)"
      by auto
    from i(1) have "i = 0 \<or> i = 1 \<or> i = 2" by arith
    with i(2) have "i = 0" by auto
    with i(3) run show ?thesis by simp
  qed
  from ids es first wrap succ show ?thesis by blast
qed


text \<open>
  Claim C10.  A call of the selector that returns no agent leaves the store, and so the
  queue's \<open>lastAgentRR\<close> key, as it was; this is the case when no agent is logged into the
  queue and when no logged-in agent is both \<open>AVAILABLE\<close> and on shift.  The pointer is
  written only by a call that selects an agent, and then with that agent.
\<close>

theorem findAgentForCall_RoundRobin_pointer_frame:
  "((\<forall>a. fst (findAgentForCall_RoundRobin s cc q t) \<noteq> Inr (Some a)) \<longrightarrow>
      snd (findAgentForCall_RoundRobin s cc q t) = s) \<and>
   (\<forall>a. fst (findAgentForCall_RoundRobin s cc q t) = Inr (Some a) \<longrightarrow>
      snd (findAgentForCall_RoundRobin s cc q t) = redisSet s (getQueueLastAgentRRKey cc q) a) \<and>
   (smembers s (getQueueLoggedInAgentsKey cc q) = [] \<or>
    filter (eligibleAgent s cc t) (smembers s (getQueueLoggedInAgentsKey cc q)) = [] \<longrightarrow>
      (\<forall>a. fst (findAgentForCall_RoundRobin s cc q t) \<noteq> Inr (Some a)) \<and>
      redisGet (snd (findAgentForCall_RoundRobin s cc q t)) (getQueueLastAgentRRKey cc q) =
        redisGet s (getQueueLastAgentRRKey cc q))"
proof (cases "cc = [] \<or> q = []")
  case True
  from findAgent_invalid [OF True] show ?thesis by simp
next
  case False
  then have ids: "cc \<noteq> []" "q \<noteq> []" by simp_all
  show ?thesis
    unfolding findAgent_eligible [OF ids] eligibleList_empty_iff by auto
qed

theorem findAgentForCall_RoundRobin_pointer_frame_witness:
  "smembers emptyStore (getQueueLoggedInAgentsKey ''CC'' ''Q1'') = [] \<and>
   (\<forall>a. fst (findAgentForCall_RoundRobin emptyStore ''CC'' ''Q1'' mondayMorning) \<noteq> Inr (Some a)) \<and>
   snd (findAgentForCall_RoundRobin emptyStore ''CC'' ''Q1'' mondayMorning) = emptyStore \<and>
   fst (findAgentForCall_RoundRobin scenarioStore ''CC'' ''Q1'' mondayMorning) = Inr (Some ''A'') \<and>
   snd (findAgentForCall_RoundRobin scenarioStore ''CC'' ''Q1'' mondayMorning) =
     redisSet scenarioStore (getQueueLastAgentRRKey ''CC'' ''Q1'') ''A''"
proof -
  have none: "smembers emptyStore (getQueueLoggedInAgentsKey ''CC'' ''Q1'') = []"
    by (simp add: smembers_def emptyStore_def)
  have sel: "fst (findAgentForCall_RoundRobin scenarioStore ''CC'' ''Q1'' mondayMorning) =
      Inr (Some ''A'')"
    using findAgent_eligible [of "''CC''" "''Q1''" scenarioStore mondayMorning]
    by (simp add: scenarioStore_eligible scenarioStore_pointer nextPosition_def)
  from findAgentForCall_RoundRobin_pointer_frame [of emptyStore "''CC''" "''Q1''" mondayMorning]
    findAgentForCall_RoundRobin_pointer_frame [of scenarioStore "''CC''" "''Q1''" mondayMorning]
    none sel
  show ?thesis by simp
qed


text \<open>
  Claim C4.  Take \<open>n\<close> successive selections for one queue whose logged-in set and agents
  do not change, over a nonempty eligible list \<open>es\<close> of \<open>k\<close> agents that is the same at
  every instant.  Every selection succeeds with an agent of \<open>es\<close>; each agent of \<open>es\<close> is
  selected \<open>n div k\<close> or \<open>(n + k - 1) div k\<close> times, the floor and the ceiling of \<open>n / k\<close>;
  and when \<open>k \<ge> 2\<close> no two consecutive selections give the same agent.
\<close>

theorem roundRobin_fairness:
  assumes "cc \<noteq> []" and "q \<noteq> []"
    and "distinct (smembers s (getQueueLoggedInAgentsKey cc q))"
    and "\<forall>t \<in> set ts. eligibleList s cc q t = es"
    and "es \<noteq> []"
  shows "length (roundRobinRun s cc q ts) = length ts \<and>
     (\<forall>r \<in> set (roundRobinRun s cc q ts). \<exists>a \<in> set es. r = Inr (Some a)) \<and>
     (\<forall>a \<in> set es.
        count_list (roundRobinRun s cc q ts) (Inr (Some a)) = length ts div length es \<or>
        count_list (roundRobinRun s cc q ts) (Inr (Some a)) =
          (length ts + length es - 1) div length es) \<and>
     (2 \<le> length es \<longrightarrow>
        (\<forall>j. Suc j < length ts \<longrightarrow>
           roundRobinRun s cc q ts ! j \<noteq> roundRobinRun s cc q ts ! Suc j))"
proof (cases ts)
  case Nil
  then show ?thesis by simp
next
  case (Cons t0 ts0)
  let ?k = "length es"
  let ?n = "length ts"
  let ?f = "\<lambda>j. Inr (Some (es ! j)) :: string + string option"
  define i where "i = nextPosition es (redisGet s (getQueueLastAgentRRKey cc q))"
  from Cons assms(4) have "eligibleList s cc q t0 = es" by simp
  with assms(3) have dist: "distinct es"
    by (auto simp: eligibleList_def)
  from assms(5) have k: "0 < ?k" by simp
  from nextPosition_less [OF assms(5)] have i: "i < ?k" by (simp add: i_def)
  have run: "roundRobinRun s cc q ts = map ?f (rotation ?k i ?n)"
    by (rule roundRobinRun_rotation [OF assms(1,2) dist assms(5,4)]) (simp add: i_def)
  have len: "length (roundRobinRun s cc q ts) = ?n"
    by (simp add: run)
  have sel: "\<forall>r \<in> set (roundRobinRun s cc q ts). \<exists>a \<in> set es. r = Inr (Some a)"
    unfolding run using rotation_less [OF k i] by (auto simp: nth_mem)
  have cnt: "count_list (roundRobinRun s cc q ts) (Inr (Some a)) = ?n div ?k \<or>
        count_list (roundRobinRun s cc q ts) (Inr (Some a)) = (?n + ?k - 1) div ?k"
    if a: "a \<in> set es" for a
  proof -
    from a obtain m where m: "m < ?k" "es ! m = a"
      by (auto simp: in_set_conv_nth)
    have inj: "\<forall>x \<in> set (rotation ?k i ?n). ?f x = ?f m \<longrightarrow> x = m"
      using rotation_less [OF k i] m(1) dist by (auto simp: nth_eq_iff_index_eq)
    have "count_list (roundRobinRun s cc q ts) (?f m) = count_list (rotation ?k i ?n) m"
      unfolding run by (rule count_list_map_inj [OF inj])
    with count_rotation_bounds [OF i m(1), of ?n] m(2) show ?thesis by simp
  qed
  have adj: "roundRobinRun s cc q ts ! j \<noteq> roundRobinRun s cc q ts ! Suc j"
    if k2: "2 \<le> ?k" and j: "Suc j < ?n" for j
  proof -
    let ?x = "rotation ?k i ?n ! j"
    from j have "?x \<in> set (rotation ?k i ?n)" by simp
    from rotation_less [OF k i this] have x: "?x < ?k" .
    have nxt: "rotation ?k i ?n ! Suc j = (?x + 1) mod ?k"
      by (rule rotation_adjacent [OF j])
    have ne: "(?x + 1) mod ?k \<noteq> ?x"
    proof (cases "?x + 1 = ?k")
      case True
      with k2 show ?thesis by simp
    next
      case False
      with x show ?thesis by simp
    qed
    from k have "(?x + 1) mod ?k < ?k" by simp
    with x ne dist have "es ! ?x \<noteq> es ! ((?x + 1) mod ?k)"
      by (simp add: nth_eq_iff_index_eq)
    with j nxt show ?thesis
      by (simp add: run)
  qed
  from len sel cnt adj show ?thesis by blast
qed

theorem roundRobin_fairness_witness:
  "''CC'' \<noteq> [] \<and> ''Q1'' \<noteq> [] \<and>
   distinct (smembers scenarioStore (getQueueLoggedInAgentsKey ''CC'' ''Q1'')) \<and>
   eligibleList scenarioStore ''CC'' ''Q1'' mondayMorning = [''A'', ''B'', ''C''] \<and>
   (count_list (roundRobinRun scenarioStore ''CC'' ''Q1''
                  [mondayMorning, mondayMorning, mondayMorning, mondayMorning])
      (Inr (Some ''B'')) = 1 \<or>
    count_list (roundRobinRun scenarioStore ''CC'' ''Q1''
                  [mondayMorning, mondayMorning, mondayMorning, mondayMorning])
      (Inr (Some ''B'')) = 2) \<and>
   roundRobinRun scenarioStore ''CC'' ''Q1''
       [mondayMorning, mondayMorning, mondayMorning, mondayMorning] ! 0 \<noteq>
     roundRobinRun scenarioStore ''CC'' ''Q1''
       [mondayMorning, mondayMorning, mondayMorning, mondayMorning] ! 1"
proof -
  let ?ts = "[mondayMorning, mondayMorning, mondayMorning, mondayMorning]"
  have ids: "''CC'' \<noteq> []" "''Q1'' \<noteq> []"
    by simp_all
  have dist: "distinct (smembers scenarioStore (getQueueLoggedInAgentsKey ''CC'' ''Q1''))"
    by (simp add: scenarioStore_members)
  have el: "\<forall>t \<in> set ?ts. eligibleList scenarioStore ''CC'' ''Q1'' t = [''A'', ''B'', ''C'']"
    by (simp add: scenarioStore_eligible)
  have ne: "[''A'', ''B'', ''C''] \<noteq> ([] :: string list)"
    by simp
  note fair = roundRobin_fairness [OF ids dist el ne]
  from fair have cnt: "count_list (roundRobinRun scenarioStore ''CC'' ''Q1'' ?ts) (Inr (Some ''B'')) = 1 \<or>
    count_list (roundRobinRun scenarioStore ''CC'' ''Q1'' ?ts) (Inr (Some ''B'')) = 2"
    by simp
  from fair have adj: "roundRobinRun scenarioStore ''CC'' ''Q1'' ?ts ! 0 \<noteq>
     roundRobinRun scenarioStore ''CC'' ''Q1'' ?ts ! 1"
    by simp
  from ids dist scenarioStore_eligible cnt adj show ?thesis by blast
qed

section \<open>Properties of the call router\<close>

lemma addCallToQueue_fields [simp]:
  "agentHashes (addCallToQueue s cc q r) = agentHashes s"
  "queueHashes (addCallToQueue s cc q r) = queueHashes s"
  "redisSets (addCallToQueue s cc q r) = redisSets s"
  "redisStrings (addCallToQueue s cc q r) = redisStrings s"
  by (simp_all add: addCallToQueue_def rpush_def)

lemma findAgent_agentHashes [simp]:
  "agentHashes (snd (findAgentForCall_RoundRobin s cc q t)) = agentHashes s"
proof (cases "cc = [] \<or> q = []")
  case True
  from findAgent_invalid [OF True] show ?thesis by simp
next
  case False
  then have "cc \<noteq> []" "q \<noteq> []" by simp_all
  from findAgent_eligible [OF this] show ?thesis by simp
qed

lemma queueCaller_eq:
  "queueCaller s ch cc q dateNow =
     ([StartMoh (channelId ch) ''default''],
      s\<lparr>redisLists := (redisLists s)(getQueueCallsKey cc q :=
           redisLists s (getQueueCallsKey cc q) @
             [\<lparr>ariChannelId = channelId ch, callerNumber = callerIdNumber ch,
               enqueueTime = dateNow\<rparr>])\<rparr>)"
  by (simp add: queueCaller_def addCallToQueue_def rpush_def waitingRecord_def)

lemma routeRoundRobin_agentHashes:
  "agentHashes (fst (snd (routeRoundRobin appName s ch cc q now dateNow))) = agentHashes s"
proof -
  obtain r s1 where f: "findAgentForCall_RoundRobin s cc q now = (r, s1)"
    by (cases "findAgentForCall_RoundRobin s cc q now")
  from findAgent_agentHashes [of s cc q now] f have "agentHashes s1 = agentHashes s"
    by simp
  with f show ?thesis
    by (auto simp: routeRoundRobin_def queueCaller_def split: sum.splits option.splits)
qed

lemma router_keeps_agent_records:
  "agentHashes (fst (snd (onStasisStart ms appName s ch now dateNow))) = agentHashes s"
  "agentHashes (snd (onOriginateError s ch cc q dateNow)) = agentHashes s"
  "agentHashes (snd (onAgentChannelDestroyed s ch cc q dateNow)) = agentHashes s"
proof -
  show "agentHashes (fst (snd (onStasisStart ms appName s ch now dateNow))) = agentHashes s"
    using routeRoundRobin_agentHashes [of appName s ch "CALL_CENTER_ID ch" "QUEUE_ID ch" now dateNow]
    by (auto simp: onStasisStart_def Let_def split: sum.splits prod.splits)
  show "agentHashes (snd (onOriginateError s ch cc q dateNow)) = agentHashes s"
    by (simp add: onOriginateError_def queueCaller_def)
  show "agentHashes (snd (onAgentChannelDestroyed s ch cc q dateNow)) = agentHashes s"
    by (simp add: onAgentChannelDestroyed_def queueCaller_def)
qed

lemma routeRoundRobin_originate:
  assumes "Originate p \<in> set (fst (routeRoundRobin appName s ch cc q now dateNow))"
  shows "callerId p = callerIdNumber ch \<and> app p = appName \<and> appArgs p = ''dialed_agent'' \<and>
         timeout p = 15 \<and>
         (\<exists>a d. snd (snd (routeRoundRobin appName s ch cc q now dateNow)) = Some a \<and>
            fst (findAgentForCall_RoundRobin s cc q now) = Inr (Some a) \<and>
            agentHashes s (getAgentKey cc a) = Some d \<and> originateEndpoint p = endpoint d)"
proof -
  obtain r s1 where f: "findAgentForCall_RoundRobin s cc q now = (r, s1)"
    by (cases "findAgentForCall_RoundRobin s cc q now")
  from findAgent_agentHashes [of s cc q now] f have h: "agentHashes s1 = agentHashes s"
    by simp
  from assms f h show ?thesis
    by (auto simp: routeRoundRobin_def queueCaller_def getAgentDetails_def
        split: sum.splits option.splits if_splits)
qed


lemmas scenario_eval_defs =
  scenarioStore_def mondayMorning_def createQueue_def getQueueDetails_def isQueueActive_def
  repo_eval_defs timing_eval_defs

lemma scenario_select:
  "findAgentForCall_RoundRobin scenarioStore ''CC'' ''Q1'' mondayMorning =
     (Inr (Some ''A''), redisSet scenarioStore (getQueueLastAgentRRKey ''CC'' ''Q1'') ''A'')"
  using findAgent_eligible [of "''CC''" "''Q1''" scenarioStore mondayMorning]
  by (simp add: scenarioStore_eligible scenarioStore_pointer nextPosition_def)

lemma scenario_queue:
  "getQueueDetails scenarioStore ''CC'' ''Q1'' =
     Inr \<lparr>queueName = ''Support'', strategy = ''ROUND_ROBIN'', timings = ''24/7'',
          queueStatus = ''CLOSED''\<rparr>"
  by (simp add: scenario_eval_defs)

lemma scenario_active: "isQueueActive scenarioStore ''CC'' ''Q1'' mondayMorning = Inr True"
  unfolding isQueueActive_def scenario_queue by (simp add: timing_eval_defs)

lemma scenario_agentA:
  "agentHashes scenarioStore (getAgentKey ''CC'' ''A'') =
     Some \<lparr>name = ''Alice'', endpoint = ''PJSIP/a'', shiftTimings = ''24/7'',
           status = ''AVAILABLE'', loggedInQueues = [''Q1'']\<rparr>"
  by (simp add: scenario_eval_defs)

lemma scenario_stasisStart:
  "onStasisStart reliableServer ''dialer'' scenarioStore callerY mondayMorning 1000 =
     ([Answer ''chan-Y'',
       Originate \<lparr>originateEndpoint = ''PJSIP/a'', callerId = ''5551234'', app = ''dialer'',
                  appArgs = ''dialed_agent'', timeout = 15\<rparr>],
      redisSet scenarioStore (getQueueLastAgentRRKey ''CC'' ''Q1'') ''A'',
      Some ''A'')"
  by (simp add: onStasisStart_def routeRoundRobin_def callerY_def reliableServer_def
      scenario_active scenario_queue scenario_select scenario_agentA succeededTrue_def
      getAgentDetails_def)





text \<open>
  Claim C1 asks that the router set the selected agent's status to \<open>RINGING\<close> before it
  issues the origination.  The handler has no such write (the source marks it
  \<open>TODO: Set agent status to RINGING\<close>): for caller \<open>chan-Y\<close> on queue \<open>Q1\<close> it answers,
  selects agent \<open>A\<close> and sends the origination, and the only change to the store is the
  round-robin pointer, so the record of \<open>A\<close> still has status \<open>AVAILABLE\<close> while the agent
  is being rung.
\<close>

theorem onStasisStart_originates_to_available_agent:
  "onStasisStart reliableServer ''dialer'' scenarioStore callerY mondayMorning 1000 =
     ([Answer ''chan-Y'',
       Originate \<lparr>originateEndpoint = ''PJSIP/a'', callerId = ''5551234'', app = ''dialer'',
                  appArgs = ''dialed_agent'', timeout = 15\<rparr>],
      redisSet scenarioStore (getQueueLastAgentRRKey ''CC'' ''Q1'') ''A'',
      Some ''A'') \<and>
   getAgentDetails (redisSet scenarioStore (getQueueLastAgentRRKey ''CC'' ''Q1'') ''A'') ''CC'' ''A'' =
     Inr \<lparr>name = ''Alice'', endpoint = ''PJSIP/a'', shiftTimings = ''24/7'',
          status = ''AVAILABLE'', loggedInQueues = [''Q1'']\<rparr> \<and>
   status \<lparr>name = ''Alice'', endpoint = ''PJSIP/a'', shiftTimings = ''24/7'',
           status = ''AVAILABLE'', loggedInQueues = [''Q1'']\<rparr> \<noteq> ''RINGING''"
  by (simp add: scenario_stasisStart getAgentDetails_def scenario_agentA)


text \<open>
  Claim C9, as stated: every origination request carries the marker argument \<open>agent_leg\<close>.
  The marker that the router sends is \<open>dialed_agent\<close>.
\<close>

theorem originate_marker_counterexample:
  "Originate \<lparr>originateEndpoint = ''PJSIP/a'', callerId = ''5551234'', app = ''dialer'',
              appArgs = ''dialed_agent'', timeout = 15\<rparr>
     \<in> set (fst (onStasisStart reliableServer ''dialer'' scenarioStore callerY mondayMorning 1000)) \<and>
   appArgs \<lparr>originateEndpoint = ''PJSIP/a'', callerId = ''5551234'', app = ''dialer'',
            appArgs = ''dialed_agent'', timeout = 15\<rparr> \<noteq> ''agent_leg''"
  by (simp add: scenario_stasisStart)


text \<open>
  Claim C9, amended: every origination request that the router issues carries the caller's
  number as caller id, the routing application's name, the application argument
  \<open>dialed_agent\<close> and an answer timeout of 15 seconds, and goes to the endpoint of the
  selected agent.
\<close>

theorem onStasisStart_originate_request:
  assumes "Originate p \<in> set (fst (onStasisStart ms appName s ch now dateNow))"
  shows "callerId p = callerIdNumber ch \<and> app p = appName \<and> appArgs p = ''dialed_agent'' \<and>
         timeout p = 15 \<and>
         (\<exists>a d. snd (snd (onStasisStart ms appName s ch now dateNow)) = Some a \<and>
            fst (findAgentForCall_RoundRobin s (CALL_CENTER_ID ch) (QUEUE_ID ch) now) =
              Inr (Some a) \<and>
            agentHashes s (getAgentKey (CALL_CENTER_ID ch) a) = Some d \<and>
            originateEndpoint p = endpoint d)"
proof -
  let ?r = "routeRoundRobin appName s ch (CALL_CENTER_ID ch) (QUEUE_ID ch) now dateNow"
  from assms have routed: "Originate p \<in> set (fst ?r)"
    and res: "snd (snd (onStasisStart ms appName s ch now dateNow)) = snd (snd ?r)"
    by (auto simp: onStasisStart_def closedQueue_def Let_def
        split: if_splits sum.splits prod.splits)
  from routeRoundRobin_originate [OF routed] res show ?thesis
    by simp
qed

theorem onStasisStart_originate_request_witness:
  "Originate \<lparr>originateEndpoint = ''PJSIP/a'', callerId = ''5551234'', app = ''dialer'',
              appArgs = ''dialed_agent'', timeout = 15\<rparr>
     \<in> set (fst (onStasisStart reliableServer ''dialer'' scenarioStore callerY mondayMorning 1000)) \<and>
   ''5551234'' = callerIdNumber callerY \<and>
   (\<exists>a d. snd (snd (onStasisStart reliableServer ''dialer'' scenarioStore callerY mondayMorning
                      1000)) = Some a \<and>
      agentHashes scenarioStore (getAgentKey (CALL_CENTER_ID callerY) a) = Some d \<and>
      ''PJSIP/a'' = endpoint d)"
proof -
  have mem: "Originate \<lparr>originateEndpoint = ''PJSIP/a'', callerId = ''5551234'', app = ''dialer'',
              appArgs = ''dialed_agent'', timeout = 15\<rparr>
     \<in> set (fst (onStasisStart reliableServer ''dialer'' scenarioStore callerY mondayMorning 1000))"
    by (simp add: scenario_stasisStart)
  from onStasisStart_originate_request [OF mem] mem show ?thesis
    by auto
qed


subsection \<open>Re-enqueueing a caller\<close>











end
